theory Spec2Isabelle
  imports Main "HOL-Library.Word" "HOL-Library.State_Monad"
begin

unbundle bit_operations_syntax

section \<open>Machine integers and their bytes\<close>

text \<open>
  The decoder of \<^verbatim>\<open>main.c\<close> reads every integer with \<^verbatim>\<open>fread\<close> straight into a
  \<^verbatim>\<open>uintN_t\<close> object, so the value is the host's reading of the bytes. Mach-O hosts
  (x86-64, arm64) are little-endian: the first byte of the stream is the least
  significant one.
\<close>

type_synonym u8 = "8 word"
type_synonym u16 = "16 word"
type_synonym u32 = "32 word"
type_synonym u64 = "64 word"

fun word_of_bytes :: "u8 list \<Rightarrow> 'a::len word" where
  "word_of_bytes [] = 0"
| "word_of_bytes (b # bs) = ucast b OR push_bit 8 (word_of_bytes bs)"

definition bytes_of_u8 :: "u8 \<Rightarrow> u8 list" where
  "bytes_of_u8 w = [w]"

definition bytes_of_u16 :: "u16 \<Rightarrow> u8 list" where
  "bytes_of_u16 w = [ucast w, ucast (drop_bit 8 w)]"

definition bytes_of_u32 :: "u32 \<Rightarrow> u8 list" where
  "bytes_of_u32 w =
     [ucast w, ucast (drop_bit 8 w), ucast (drop_bit 16 w), ucast (drop_bit 24 w)]"

definition bytes_of_u64 :: "u64 \<Rightarrow> u8 list" where
  "bytes_of_u64 w =
     [ucast w, ucast (drop_bit 8 w), ucast (drop_bit 16 w), ucast (drop_bit 24 w),
      ucast (drop_bit 32 w), ucast (drop_bit 40 w), ucast (drop_bit 48 w),
      ucast (drop_bit 56 w)]"

section \<open>The input stream\<close>

text \<open>
  A \<^verbatim>\<open>FILE *\<close> opened for reading is the bytes of the file and a cursor. The model
  also keeps the list of the calls made on the stream, in order, so that a statement
  such as ``no seek or read is performed'' can be written down. The bytes never change.

  \<^verbatim>\<open>fread(ptr, size, n, file)\<close> copies as many of the requested \<open>size * n\<close> bytes as
  the file still has behind the cursor to the front of the destination (an object of
  \<open>size * n\<close> bytes), leaves the rest of the destination as it was, and advances the
  cursor by the number of bytes copied.
  The decoder never looks at the value \<^verbatim>\<open>fread\<close> returns, so the model returns only
  the destination's new contents; the argument \<open>buf\<close> is what the destination held
  before the call. \<^verbatim>\<open>fseek(file, off, SEEK_SET)\<close> moves the cursor to \<open>off\<close>, also
  past the end of the file, where every read finds nothing.
\<close>

datatype io_call = Fread nat nat | Fseek nat

record FILE =
  contents :: "u8 list"
  pos :: nat
  calls :: "io_call list"

definition fopen :: "u8 list \<Rightarrow> FILE" where
  "fopen bs = \<lparr>contents = bs, pos = 0, calls = []\<rparr>"

definition fread :: "u8 list \<Rightarrow> nat \<Rightarrow> nat \<Rightarrow> (FILE, u8 list) state" where
  "fread buf sz n = State (\<lambda>f.
     let got = take (sz * n) (drop (pos f) (contents f))
     in (take (sz * n) (got @ drop (length got) buf),
         f\<lparr>pos := pos f + length got, calls := calls f @ [Fread sz n]\<rparr>))"

definition fseek :: "nat \<Rightarrow> (FILE, unit) state" where
  "fseek off = State (\<lambda>f. ((), f\<lparr>pos := off, calls := calls f @ [Fseek off]\<rparr>))"

definition fread_u8 :: "u8 \<Rightarrow> (FILE, u8) state" where
  "fread_u8 old = do { bs \<leftarrow> fread (bytes_of_u8 old) 1 1; State_Monad.return (word_of_bytes bs) }"

definition fread_u16 :: "u16 \<Rightarrow> (FILE, u16) state" where
  "fread_u16 old = do { bs \<leftarrow> fread (bytes_of_u16 old) 2 1; State_Monad.return (word_of_bytes bs) }"

definition fread_u32 :: "u32 \<Rightarrow> (FILE, u32) state" where
  "fread_u32 old = do { bs \<leftarrow> fread (bytes_of_u32 old) 4 1; State_Monad.return (word_of_bytes bs) }"

definition fread_u64 :: "u64 \<Rightarrow> (FILE, u64) state" where
  "fread_u64 old = do { bs \<leftarrow> fread (bytes_of_u64 old) 8 1; State_Monad.return (word_of_bytes bs) }"

text \<open>A 16-byte name field: \<^verbatim>\<open>fread(name, sizeof(uint8_t), 16, file)\<close>.\<close>

definition fread_name :: "u8 list \<Rightarrow> (FILE, u8 list) state" where
  "fread_name old = fread old 1 16"

section \<open>The structures of \<^verbatim>\<open>main.c\<close>\<close>

text \<open>
  \<^verbatim>\<open>LC_SYMTAB\<close> and \<^verbatim>\<open>LC_DYSYMTAB\<close> are defined in \<^verbatim>\<open>main.c\<close>;
  \<^verbatim>\<open>LC_SEGMENT_64\<close>, \<^verbatim>\<open>LC_BUILD_VERSION\<close> and \<^verbatim>\<open>vm_prot_t\<close> (a 32-bit
  \<^verbatim>\<open>int\<close>, kept here as its bit pattern) come from the platform header
  \<^verbatim>\<open><mach-o/loader.h>\<close>, with the values below.
\<close>

definition LC_SYMTAB :: u32 where "LC_SYMTAB = 0x2"
definition LC_DYSYMTAB :: u32 where "LC_DYSYMTAB = 0xb"
definition LC_SEGMENT_64 :: u32 where "LC_SEGMENT_64 = 0x19"
definition LC_BUILD_VERSION :: u32 where "LC_BUILD_VERSION = 0x32"

record nlist_64_t =
  n_strx :: u32
  n_type :: u8
  n_sect :: u8
  n_desc :: u16
  n_value :: u64

record dysymtab_command_t =
  ilocalsym :: u32
  nlocalsym :: u32
  iextdefsym :: u32
  nextdefsym :: u32
  iundefsym :: u32
  nundefsym :: u32
  tocoff :: u32
  ntoc :: u32
  modtaboff :: u32
  nmodtab :: u32
  extrefsymoff :: u32
  nextrefsyms :: u32
  indirectsymoff :: u32
  nindirectsyms :: u32
  extreloff :: u32
  nextrel :: u32
  locreloff :: u32
  nlocrel :: u32

text \<open>
  The two pointer members of \<^verbatim>\<open>symtab_command_t\<close> are options: \<open>None\<close> is a pointer
  the program has not assigned (its value is indeterminate), \<open>Some xs\<close> a pointer to a
  buffer the program allocated, holding \<open>xs\<close>.
\<close>

record symtab_command_t =
  symoff :: u32
  nsyms :: u32
  stroff :: u32
  strsize :: u32
  string_table :: "u8 list option"
  symbol_table :: "nlist_64_t list option"

record section_64_t =
  sectname :: "u8 list"
  sect_segname :: "u8 list"
  addr :: u64
  sect_size :: u64
  offset :: u32
  align :: u32
  reloff :: u32
  nreloc :: u32
  sect_flags :: u32
  reserved1 :: u32
  reserved2 :: u32
  reserved3 :: u32

record segment_command_64_t =
  segname :: "u8 list"
  vmaddr :: u64
  vmsize :: u64
  fileoff :: u64
  filesize :: u64
  maxprot :: u32
  initprot :: u32
  nsects :: u32
  seg_flags :: u32
  sections :: "section_64_t list"

record build_version_command_t =
  platform :: u32
  minos :: u32
  sdk :: u32
  ntools :: u32

text \<open>The anonymous union of \<^verbatim>\<open>load_command_t\<close>, one constructor for each member.\<close>

datatype cmd_union =
    Cmd_seg_64 segment_command_64_t
  | Cmd_build_version build_version_command_t
  | Cmd_symtab symtab_command_t
  | Cmd_dysymtab dysymtab_command_t

record load_command_t =
  cmd :: u32
  cmd_size :: u32
  body :: cmd_union

record mach_object_file_t =
  magic :: u32
  cpu_type :: u32
  cpu_subtype :: u32
  file_type :: u32
  number_of_load_commands :: u32
  size_of_load_commands :: u32
  flags :: u32
  reserved :: u32
  commands :: "load_command_t list"

section \<open>\<^verbatim>\<open>parse_file\<close>\<close>

text \<open>
  \<^verbatim>\<open>object_file\<close> has static storage, so its members are zero before
  \<^verbatim>\<open>parse_file\<close> runs. The variables declared inside the loops (\<^verbatim>\<open>cmd\<close>,
  \<^verbatim>\<open>cmd_size\<close>, \<^verbatim>\<open>segment\<close>, \<^verbatim>\<open>section\<close>, \<^verbatim>\<open>dysymtab\<close>, \<^verbatim>\<open>symtab\<close>,
  \<^verbatim>\<open>build_ver\<close>, \<^verbatim>\<open>entry\<close>) and the buffer \<^verbatim>\<open>malloc\<close> returns for the string
  table are not initialised: what they hold before the first \<^verbatim>\<open>fread\<close> into them is
  not determined by the program. The model takes these values as a parameter, one for
  each variable and each iteration of the loop that declares it (\<open>i\<close> counts the load
  commands, \<open>k\<close> the sections of a segment or the symbol entries), and every theorem
  holds for all of them. \<^verbatim>\<open>malloc\<close> is taken to succeed.
\<close>

record uninit =
  u_cmd :: "nat \<Rightarrow> u32"
  u_cmd_size :: "nat \<Rightarrow> u32"
  u_segment :: "nat \<Rightarrow> segment_command_64_t"
  u_section :: "nat \<Rightarrow> nat \<Rightarrow> section_64_t"
  u_dysymtab :: "nat \<Rightarrow> dysymtab_command_t"
  u_symtab :: "nat \<Rightarrow> symtab_command_t"
  u_build_ver :: "nat \<Rightarrow> build_version_command_t"
  u_string_table :: "nat \<Rightarrow> u8"
  u_entry :: "nat \<Rightarrow> nlist_64_t"

text \<open>
  The only way \<^verbatim>\<open>parse_file\<close> fails: the \<^verbatim>\<open>default\<close> branch of the switch prints
  the tag and calls \<^verbatim>\<open>exit(EXIT_FAILURE)\<close>.
\<close>

datatype error = Unexpected_tag u32

subsection \<open>The header (lines 171--178)\<close>

definition read_header :: "(FILE, mach_object_file_t) state" where
  "read_header = do {
     magic \<leftarrow> fread_u32 0;
     cpu_type \<leftarrow> fread_u32 0;
     cpu_subtype \<leftarrow> fread_u32 0;
     file_type \<leftarrow> fread_u32 0;
     number_of_load_commands \<leftarrow> fread_u32 0;
     size_of_load_commands \<leftarrow> fread_u32 0;
     flags \<leftarrow> fread_u32 0;
     reserved \<leftarrow> fread_u32 0;
     State_Monad.return \<lparr>magic = magic, cpu_type = cpu_type, cpu_subtype = cpu_subtype,
       file_type = file_type, number_of_load_commands = number_of_load_commands,
       size_of_load_commands = size_of_load_commands, flags = flags, reserved = reserved,
       commands = []\<rparr>
   }"

subsection \<open>The bodies of the load commands (lines 188--354)\<close>

definition read_section :: "section_64_t \<Rightarrow> (FILE, section_64_t) state" where
  "read_section section = do {
     sectname \<leftarrow> fread_name (sectname section);
     segname \<leftarrow> fread_name (sect_segname section);
     addr \<leftarrow> fread_u64 (addr section);
     size \<leftarrow> fread_u64 (sect_size section);
     offset \<leftarrow> fread_u32 (offset section);
     align \<leftarrow> fread_u32 (align section);
     reloff \<leftarrow> fread_u32 (reloff section);
     nreloc \<leftarrow> fread_u32 (nreloc section);
     flags \<leftarrow> fread_u32 (sect_flags section);
     reserved1 \<leftarrow> fread_u32 (reserved1 section);
     reserved2 \<leftarrow> fread_u32 (reserved2 section);
     reserved3 \<leftarrow> fread_u32 (reserved3 section);
     State_Monad.return \<lparr>sectname = sectname, sect_segname = segname, addr = addr,
       sect_size = size, offset = offset, align = align, reloff = reloff, nreloc = nreloc,
       sect_flags = flags, reserved1 = reserved1, reserved2 = reserved2,
       reserved3 = reserved3\<rparr>
   }"

text \<open>
  \<^verbatim>\<open>for (uint32_t k = 0; k < segment.nsects; k++)\<close>: \<open>k\<close> is the loop counter and
  \<open>n\<close> the number of iterations still to run.
\<close>

fun read_sections :: "uninit \<Rightarrow> nat \<Rightarrow> nat \<Rightarrow> nat \<Rightarrow> (FILE, section_64_t list) state" where
  "read_sections u i k 0 = State_Monad.return []"
| "read_sections u i k (Suc n) = do {
     section \<leftarrow> read_section (u_section u i k);
     rest \<leftarrow> read_sections u i (Suc k) n;
     State_Monad.return (section # rest)
   }"

definition read_segment :: "uninit \<Rightarrow> nat \<Rightarrow> (FILE, segment_command_64_t) state" where
  "read_segment u i = do {
     segname \<leftarrow> fread_name (segname (u_segment u i));
     vmaddr \<leftarrow> fread_u64 (vmaddr (u_segment u i));
     vmsize \<leftarrow> fread_u64 (vmsize (u_segment u i));
     fileoff \<leftarrow> fread_u64 (fileoff (u_segment u i));
     filesize \<leftarrow> fread_u64 (filesize (u_segment u i));
     maxprot \<leftarrow> fread_u32 (maxprot (u_segment u i));
     initprot \<leftarrow> fread_u32 (initprot (u_segment u i));
     nsects \<leftarrow> fread_u32 (nsects (u_segment u i));
     flags \<leftarrow> fread_u32 (seg_flags (u_segment u i));
     sections \<leftarrow> read_sections u i 0 (unat nsects);
     State_Monad.return \<lparr>segname = segname, vmaddr = vmaddr, vmsize = vmsize,
       fileoff = fileoff, filesize = filesize, maxprot = maxprot, initprot = initprot,
       nsects = nsects, seg_flags = flags, sections = sections\<rparr>
   }"

definition read_dysymtab :: "dysymtab_command_t \<Rightarrow> (FILE, dysymtab_command_t) state" where
  "read_dysymtab dysymtab = do {
     ilocalsym \<leftarrow> fread_u32 (ilocalsym dysymtab);
     nlocalsym \<leftarrow> fread_u32 (nlocalsym dysymtab);
     iextdefsym \<leftarrow> fread_u32 (iextdefsym dysymtab);
     nextdefsym \<leftarrow> fread_u32 (nextdefsym dysymtab);
     iundefsym \<leftarrow> fread_u32 (iundefsym dysymtab);
     nundefsym \<leftarrow> fread_u32 (nundefsym dysymtab);
     tocoff \<leftarrow> fread_u32 (tocoff dysymtab);
     ntoc \<leftarrow> fread_u32 (ntoc dysymtab);
     modtaboff \<leftarrow> fread_u32 (modtaboff dysymtab);
     nmodtab \<leftarrow> fread_u32 (nmodtab dysymtab);
     extrefsymoff \<leftarrow> fread_u32 (extrefsymoff dysymtab);
     nextrefsyms \<leftarrow> fread_u32 (nextrefsyms dysymtab);
     indirectsymoff \<leftarrow> fread_u32 (indirectsymoff dysymtab);
     nindirectsyms \<leftarrow> fread_u32 (nindirectsyms dysymtab);
     extreloff \<leftarrow> fread_u32 (extreloff dysymtab);
     nextrel \<leftarrow> fread_u32 (nextrel dysymtab);
     locreloff \<leftarrow> fread_u32 (locreloff dysymtab);
     nlocrel \<leftarrow> fread_u32 (nlocrel dysymtab);
     State_Monad.return \<lparr>ilocalsym = ilocalsym, nlocalsym = nlocalsym,
       iextdefsym = iextdefsym, nextdefsym = nextdefsym, iundefsym = iundefsym,
       nundefsym = nundefsym, tocoff = tocoff, ntoc = ntoc, modtaboff = modtaboff,
       nmodtab = nmodtab, extrefsymoff = extrefsymoff, nextrefsyms = nextrefsyms,
       indirectsymoff = indirectsymoff, nindirectsyms = nindirectsyms,
       extreloff = extreloff, nextrel = nextrel, locreloff = locreloff,
       nlocrel = nlocrel\<rparr>
   }"

text \<open>
  The first pass reads the four words of a symbol-table command and assigns neither
  pointer of the local \<^verbatim>\<open>symtab\<close>.
\<close>

definition read_symtab :: "symtab_command_t \<Rightarrow> (FILE, symtab_command_t) state" where
  "read_symtab symtab = do {
     symoff \<leftarrow> fread_u32 (symoff symtab);
     nsyms \<leftarrow> fread_u32 (nsyms symtab);
     stroff \<leftarrow> fread_u32 (stroff symtab);
     strsize \<leftarrow> fread_u32 (strsize symtab);
     State_Monad.return \<lparr>symoff = symoff, nsyms = nsyms, stroff = stroff,
       strsize = strsize, string_table = None, symbol_table = None\<rparr>
   }"

definition read_build_version ::
  "build_version_command_t \<Rightarrow> (FILE, build_version_command_t) state" where
  "read_build_version build_ver = do {
     platform \<leftarrow> fread_u32 (platform build_ver);
     minos \<leftarrow> fread_u32 (minos build_ver);
     sdk \<leftarrow> fread_u32 (sdk build_ver);
     ntools \<leftarrow> fread_u32 (ntools build_ver);
     State_Monad.return \<lparr>platform = platform, minos = minos, sdk = sdk, ntools = ntools\<rparr>
   }"

subsection \<open>The first loop (lines 181--359)\<close>

text \<open>
  One iteration: the tag and the size, then the switch on the tag. \<open>Inl\<close> is the
  \<^verbatim>\<open>default\<close> branch, which ends the program.
\<close>

definition parse_command :: "uninit \<Rightarrow> nat \<Rightarrow> (FILE, error + load_command_t) state" where
  "parse_command u i = do {
     cmd \<leftarrow> fread_u32 (u_cmd u i);
     cmd_size \<leftarrow> fread_u32 (u_cmd_size u i);
     if cmd = LC_SEGMENT_64 then do {
       segment \<leftarrow> read_segment u i;
       State_Monad.return (Inr \<lparr>cmd = cmd, cmd_size = cmd_size, body = Cmd_seg_64 segment\<rparr>)
     } else if cmd = LC_DYSYMTAB then do {
       dysymtab \<leftarrow> read_dysymtab (u_dysymtab u i);
       State_Monad.return (Inr \<lparr>cmd = cmd, cmd_size = cmd_size, body = Cmd_dysymtab dysymtab\<rparr>)
     } else if cmd = LC_SYMTAB then do {
       symtab \<leftarrow> read_symtab (u_symtab u i);
       State_Monad.return (Inr \<lparr>cmd = cmd, cmd_size = cmd_size, body = Cmd_symtab symtab\<rparr>)
     } else if cmd = LC_BUILD_VERSION then do {
       build_ver \<leftarrow> read_build_version (u_build_ver u i);
       State_Monad.return
         (Inr \<lparr>cmd = cmd, cmd_size = cmd_size, body = Cmd_build_version build_ver\<rparr>)
     } else State_Monad.return (Inl (Unexpected_tag cmd))
   }"

text \<open>
  \<^verbatim>\<open>for (uint32_t i = 0; i < object_file.number_of_load_commands; i++)\<close>, with
  \<open>n\<close> the number of iterations still to run. The array \<^verbatim>\<open>commands\<close> is filled
  from index 0 upwards, which is the list built here.
\<close>

fun parse_commands :: "uninit \<Rightarrow> nat \<Rightarrow> nat \<Rightarrow> (FILE, error + load_command_t list) state" where
  "parse_commands u i 0 = State_Monad.return (Inr [])"
| "parse_commands u i (Suc n) = do {
     r \<leftarrow> parse_command u i;
     case r of
       Inl e \<Rightarrow> State_Monad.return (Inl e)
     | Inr command \<Rightarrow> do {
         rs \<leftarrow> parse_commands u (Suc i) n;
         State_Monad.return (case rs of Inl e \<Rightarrow> Inl e | Inr rest \<Rightarrow> Inr (command # rest))
       }
   }"

subsection \<open>The second loop (lines 361--393)\<close>

definition read_entry :: "nlist_64_t \<Rightarrow> (FILE, nlist_64_t) state" where
  "read_entry entry = do {
     n_strx \<leftarrow> fread_u32 (n_strx entry);
     n_type \<leftarrow> fread_u8 (n_type entry);
     n_sect \<leftarrow> fread_u8 (n_sect entry);
     n_desc \<leftarrow> fread_u16 (n_desc entry);
     n_value \<leftarrow> fread_u64 (n_value entry);
     State_Monad.return \<lparr>n_strx = n_strx, n_type = n_type, n_sect = n_sect,
       n_desc = n_desc, n_value = n_value\<rparr>
   }"

fun read_entries :: "uninit \<Rightarrow> nat \<Rightarrow> nat \<Rightarrow> (FILE, nlist_64_t list) state" where
  "read_entries u k 0 = State_Monad.return []"
| "read_entries u k (Suc n) = do {
     entry \<leftarrow> read_entry (u_entry u k);
     rest \<leftarrow> read_entries u (Suc k) n;
     State_Monad.return (entry # rest)
   }"

text \<open>
  The body of the \<^verbatim>\<open>if\<close> at line 363. The string table is read into the local
  \<^verbatim>\<open>string_table\<close>, which no statement stores in the command; the symbol entries are
  written through the command's own \<^verbatim>\<open>symbol_table\<close>.
\<close>

definition resolve_symtab :: "uninit \<Rightarrow> symtab_command_t \<Rightarrow> (FILE, symtab_command_t) state" where
  "resolve_symtab u symtab = do {
     _ \<leftarrow> fseek (unat (stroff symtab));
     string_table \<leftarrow> fread (map (u_string_table u) [0..<unat (strsize symtab)])
                       1 (unat (strsize symtab));
     _ \<leftarrow> fseek (unat (symoff symtab));
     entries \<leftarrow> read_entries u 0 (unat (nsyms symtab));
     State_Monad.return (symtab\<lparr>symbol_table := Some entries\<rparr>)
   }"

text \<open>
  The loop runs over the \<^verbatim>\<open>number_of_load_commands\<close> elements of \<^verbatim>\<open>commands\<close>,
  all of them written by the first loop, and leaves at the first element whose tag is
  \<^verbatim>\<open>LC_SYMTAB\<close>. The first loop stores under that tag only the member
  \<^verbatim>\<open>cmd_symtab\<close>; for a command built otherwise, reading \<^verbatim>\<open>cmd_symtab\<close> would
  reinterpret another member's bytes, and the model leaves such a command alone.
\<close>

fun resolve_commands :: "uninit \<Rightarrow> load_command_t list \<Rightarrow> (FILE, load_command_t list) state" where
  "resolve_commands u [] = State_Monad.return []"
| "resolve_commands u (command # rest) =
     (if cmd command = LC_SYMTAB then
        (case body command of
           Cmd_symtab symtab \<Rightarrow> do {
             symtab' \<leftarrow> resolve_symtab u symtab;
             State_Monad.return (command\<lparr>body := Cmd_symtab symtab'\<rparr> # rest)
           }
         | _ \<Rightarrow> State_Monad.return (command # rest))
      else do {
        rest' \<leftarrow> resolve_commands u rest;
        State_Monad.return (command # rest')
      })"

subsection \<open>The whole function\<close>

definition parse_file :: "uninit \<Rightarrow> (FILE, error + mach_object_file_t) state" where
  "parse_file u = do {
     object_file \<leftarrow> read_header;
     r \<leftarrow> parse_commands u 0 (unat (number_of_load_commands object_file));
     case r of
       Inl e \<Rightarrow> State_Monad.return (Inl e)
     | Inr cmds \<Rightarrow> do {
         cmds' \<leftarrow> resolve_commands u cmds;
         State_Monad.return (Inr (object_file\<lparr>commands := cmds'\<rparr>))
       }
   }"

section \<open>The stream a writer produces\<close>

definition enc_header :: "mach_object_file_t \<Rightarrow> u8 list" where
  "enc_header h = bytes_of_u32 (magic h) @ bytes_of_u32 (cpu_type h) @
     bytes_of_u32 (cpu_subtype h) @ bytes_of_u32 (file_type h) @
     bytes_of_u32 (number_of_load_commands h) @ bytes_of_u32 (size_of_load_commands h) @
     bytes_of_u32 (flags h) @ bytes_of_u32 (reserved h)"

definition enc_section :: "section_64_t \<Rightarrow> u8 list" where
  "enc_section s = sectname s @ sect_segname s @ bytes_of_u64 (addr s) @
     bytes_of_u64 (sect_size s) @ bytes_of_u32 (offset s) @ bytes_of_u32 (align s) @
     bytes_of_u32 (reloff s) @ bytes_of_u32 (nreloc s) @ bytes_of_u32 (sect_flags s) @
     bytes_of_u32 (reserved1 s) @ bytes_of_u32 (reserved2 s) @ bytes_of_u32 (reserved3 s)"

definition enc_segment :: "segment_command_64_t \<Rightarrow> u8 list" where
  "enc_segment g = segname g @ bytes_of_u64 (vmaddr g) @ bytes_of_u64 (vmsize g) @
     bytes_of_u64 (fileoff g) @ bytes_of_u64 (filesize g) @ bytes_of_u32 (maxprot g) @
     bytes_of_u32 (initprot g) @ bytes_of_u32 (nsects g) @ bytes_of_u32 (seg_flags g) @
     concat (map enc_section (sections g))"

definition enc_symtab :: "symtab_command_t \<Rightarrow> u8 list" where
  "enc_symtab s = bytes_of_u32 (symoff s) @ bytes_of_u32 (nsyms s) @
     bytes_of_u32 (stroff s) @ bytes_of_u32 (strsize s)"

definition enc_dysymtab :: "dysymtab_command_t \<Rightarrow> u8 list" where
  "enc_dysymtab d = bytes_of_u32 (ilocalsym d) @ bytes_of_u32 (nlocalsym d) @
     bytes_of_u32 (iextdefsym d) @ bytes_of_u32 (nextdefsym d) @
     bytes_of_u32 (iundefsym d) @ bytes_of_u32 (nundefsym d) @ bytes_of_u32 (tocoff d) @
     bytes_of_u32 (ntoc d) @ bytes_of_u32 (modtaboff d) @ bytes_of_u32 (nmodtab d) @
     bytes_of_u32 (extrefsymoff d) @ bytes_of_u32 (nextrefsyms d) @
     bytes_of_u32 (indirectsymoff d) @ bytes_of_u32 (nindirectsyms d) @
     bytes_of_u32 (extreloff d) @ bytes_of_u32 (nextrel d) @ bytes_of_u32 (locreloff d) @
     bytes_of_u32 (nlocrel d)"

definition enc_build_version :: "build_version_command_t \<Rightarrow> u8 list" where
  "enc_build_version b = bytes_of_u32 (platform b) @ bytes_of_u32 (minos b) @
     bytes_of_u32 (sdk b) @ bytes_of_u32 (ntools b)"

fun enc_body :: "cmd_union \<Rightarrow> u8 list" where
  "enc_body (Cmd_seg_64 g) = enc_segment g"
| "enc_body (Cmd_build_version b) = enc_build_version b"
| "enc_body (Cmd_symtab s) = enc_symtab s"
| "enc_body (Cmd_dysymtab d) = enc_dysymtab d"

definition enc_command :: "load_command_t \<Rightarrow> u8 list" where
  "enc_command c = bytes_of_u32 (cmd c) @ bytes_of_u32 (cmd_size c) @ enc_body (body c)"

definition enc_file :: "mach_object_file_t \<Rightarrow> u8 list" where
  "enc_file h = enc_header h @ concat (map enc_command (commands h))"

definition wf_section :: "section_64_t \<Rightarrow> bool" where
  "wf_section s \<longleftrightarrow> length (sectname s) = 16 \<and> length (sect_segname s) = 16"

fun wf_body :: "u32 \<Rightarrow> cmd_union \<Rightarrow> bool" where
  "wf_body t (Cmd_seg_64 g) \<longleftrightarrow> t = LC_SEGMENT_64 \<and> length (segname g) = 16 \<and>
     unat (nsects g) = length (sections g) \<and> list_all wf_section (sections g)"
| "wf_body t (Cmd_build_version b) \<longleftrightarrow> t = LC_BUILD_VERSION"
| "wf_body t (Cmd_symtab s) \<longleftrightarrow> t = LC_SYMTAB \<and> string_table s = None \<and> symbol_table s = None"
| "wf_body t (Cmd_dysymtab d) \<longleftrightarrow> t = LC_DYSYMTAB"

definition wf_command :: "load_command_t \<Rightarrow> bool" where
  "wf_command c \<longleftrightarrow> wf_body (cmd c) (body c)"

definition reads :: "(FILE, 'a) state \<Rightarrow> u8 list \<Rightarrow> 'a \<Rightarrow> bool" where
  "reads m bs v \<longleftrightarrow> (\<forall>f rest. drop (pos f) (contents f) = bs @ rest \<longrightarrow>
     fst (run_state m f) = v \<and> pos (snd (run_state m f)) = pos f + length bs \<and>
     contents (snd (run_state m f)) = contents f)"

definition unresolved :: "load_command_t \<Rightarrow> load_command_t" where
  "unresolved c = (case body c of
       Cmd_symtab s \<Rightarrow> c\<lparr>body := Cmd_symtab (s\<lparr>string_table := None, symbol_table := None\<rparr>)\<rparr>
     | _ \<Rightarrow> c)"

definition zero_uninit :: uninit where
  "zero_uninit = \<lparr>u_cmd = (\<lambda>i. 0), u_cmd_size = (\<lambda>i. 0),
     u_segment = (\<lambda>i. \<lparr>segname = replicate 16 0, vmaddr = 0, vmsize = 0, fileoff = 0,
       filesize = 0, maxprot = 0, initprot = 0, nsects = 0, seg_flags = 0, sections = []\<rparr>),
     u_section = (\<lambda>i k. \<lparr>sectname = replicate 16 0, sect_segname = replicate 16 0,
       addr = 0, sect_size = 0, offset = 0, align = 0, reloff = 0, nreloc = 0,
       sect_flags = 0, reserved1 = 0, reserved2 = 0, reserved3 = 0\<rparr>),
     u_dysymtab = (\<lambda>i. \<lparr>ilocalsym = 0, nlocalsym = 0, iextdefsym = 0, nextdefsym = 0,
       iundefsym = 0, nundefsym = 0, tocoff = 0, ntoc = 0, modtaboff = 0, nmodtab = 0,
       extrefsymoff = 0, nextrefsyms = 0, indirectsymoff = 0, nindirectsyms = 0,
       extreloff = 0, nextrel = 0, locreloff = 0, nlocrel = 0\<rparr>),
     u_symtab = (\<lambda>i. \<lparr>symoff = 0, nsyms = 0, stroff = 0, strsize = 0,
       string_table = None, symbol_table = None\<rparr>),
     u_build_ver = (\<lambda>i. \<lparr>platform = 0, minos = 0, sdk = 0, ntools = 0\<rparr>),
     u_string_table = (\<lambda>j. 0),
     u_entry = (\<lambda>k. \<lparr>n_strx = 0, n_type = 0, n_sect = 0, n_desc = 0, n_value = 0\<rparr>)\<rparr>"

definition sample_section :: section_64_t where
  "sample_section = \<lparr>
     sectname = [0x5F, 0x5F, 0x74, 0x65, 0x78, 0x74, 0, 0, 0, 0, 0, 0, 0, 0, 0, 0],
     sect_segname = [0x5F, 0x5F, 0x54, 0x45, 0x58, 0x54, 0, 0, 0, 0, 0, 0, 0, 0, 0, 0],
     addr = 0, sect_size = 8, offset = 0x138, align = 2, reloff = 0, nreloc = 0,
     sect_flags = 0x80000400, reserved1 = 0, reserved2 = 0, reserved3 = 0\<rparr>"

definition sample_segment :: load_command_t where
  "sample_segment = \<lparr>cmd = 0x19, cmd_size = 0x98, body = Cmd_seg_64
     \<lparr>segname = [0, 0, 0, 0, 0, 0, 0, 0, 0, 0, 0, 0, 0, 0, 0, 0], vmaddr = 0, vmsize = 8,
      fileoff = 0x138, filesize = 8, maxprot = 7, initprot = 7, nsects = 1, seg_flags = 0,
      sections = [sample_section]\<rparr>\<rparr>"

definition sample_build_version :: load_command_t where
  "sample_build_version = \<lparr>cmd = 0x32, cmd_size = 0x18, body = Cmd_build_version
     \<lparr>platform = 1, minos = 0xE0000, sdk = 0xE0000, ntools = 0\<rparr>\<rparr>"

definition sample_symtab :: load_command_t where
  "sample_symtab = \<lparr>cmd = 0x2, cmd_size = 0x18, body = Cmd_symtab
     \<lparr>symoff = 0x140, nsyms = 1, stroff = 0x150, strsize = 14, string_table = None,
      symbol_table = None\<rparr>\<rparr>"

definition sample_dysymtab :: load_command_t where
  "sample_dysymtab = \<lparr>cmd = 0xb, cmd_size = 0x50, body = Cmd_dysymtab
     \<lparr>ilocalsym = 0, nlocalsym = 0, iextdefsym = 0, nextdefsym = 1, iundefsym = 1,
      nundefsym = 0, tocoff = 0, ntoc = 0, modtaboff = 0, nmodtab = 0, extrefsymoff = 0,
      nextrefsyms = 0, indirectsymoff = 0, nindirectsyms = 0, extreloff = 0, nextrel = 0,
      locreloff = 0, nlocrel = 0\<rparr>\<rparr>"

definition sample_object :: mach_object_file_t where
  "sample_object = \<lparr>magic = 0xFEEDFACF, cpu_type = 0x100000C, cpu_subtype = 0,
     file_type = 1, number_of_load_commands = 4, size_of_load_commands = 0x118, flags = 0,
     reserved = 0,
     commands = [sample_segment, sample_build_version, sample_symtab, sample_dysymtab]\<rparr>"

definition sample_entry :: nlist_64_t where
  "sample_entry = \<lparr>n_strx = 1, n_type = 0x0F, n_sect = 1, n_desc = 0, n_value = 0\<rparr>"

definition enc_entry :: "nlist_64_t \<Rightarrow> u8 list" where
  "enc_entry e = bytes_of_u32 (n_strx e) @ bytes_of_u8 (n_type e) @ bytes_of_u8 (n_sect e) @
     bytes_of_u16 (n_desc e) @ bytes_of_u64 (n_value e)"

definition sample_strings :: "u8 list" where
  "sample_strings = [0, 0x6D, 0x61, 0x69, 0x6E, 0, 0x5F, 0x68, 0x65, 0x6C, 0x70, 0x65, 0x72, 0]"

definition sample_stream :: "u8 list" where
  "sample_stream = enc_file sample_object @ [0xC0, 0x03, 0x5F, 0xD6, 0xC0, 0x03, 0x5F, 0xD6] @
     enc_entry sample_entry @ sample_strings"

definition traces :: "(FILE, 'a) state \<Rightarrow> io_call list \<Rightarrow> bool" where
  "traces m tr \<longleftrightarrow> (\<forall>f. calls (snd (run_state m f)) = calls f @ tr)"

definition second_symtab :: load_command_t where
  "second_symtab = \<lparr>cmd = 0x2, cmd_size = 0x18, body = Cmd_symtab
     \<lparr>symoff = 0x1000, nsyms = 3, stroff = 0x2000, strsize = 5, string_table = None,
      symbol_table = None\<rparr>\<rparr>"

text \<open>What the first loop guarantees of every command it stores, whatever the input.\<close>

fun body_ok :: "u32 \<Rightarrow> cmd_union \<Rightarrow> bool" where
  "body_ok t (Cmd_seg_64 g) \<longleftrightarrow> t = LC_SEGMENT_64 \<and> length (sections g) = unat (nsects g)"
| "body_ok t (Cmd_build_version b) \<longleftrightarrow> t = LC_BUILD_VERSION"
| "body_ok t (Cmd_symtab s) \<longleftrightarrow> t = LC_SYMTAB \<and> string_table s = None \<and> symbol_table s = None"
| "body_ok t (Cmd_dysymtab d) \<longleftrightarrow> t = LC_DYSYMTAB"

definition first_pass_ok :: "load_command_t \<Rightarrow> bool" where
  "first_pass_ok c \<longleftrightarrow> body_ok (cmd c) (body c)"

definition decoded_ok :: "load_command_t \<Rightarrow> bool" where
  "decoded_ok c \<longleftrightarrow> first_pass_ok (unresolved c)"

definition resolved_symtab :: load_command_t where
  "resolved_symtab = \<lparr>cmd = 0x2, cmd_size = 0x18, body = Cmd_symtab
     \<lparr>symoff = 0x140, nsyms = 1, stroff = 0x150, strsize = 14, string_table = None,
      symbol_table = Some [sample_entry]\<rparr>\<rparr>"

definition sample_decoded :: mach_object_file_t where
  "sample_decoded = \<lparr>magic = 0xFEEDFACF, cpu_type = 0x100000C, cpu_subtype = 0,
     file_type = 1, number_of_load_commands = 4, size_of_load_commands = 0x118, flags = 0,
     reserved = 0,
     commands = [sample_segment, sample_build_version, resolved_symtab, sample_dysymtab]\<rparr>"

definition no_strings :: "load_command_t \<Rightarrow> bool" where
  "no_strings c \<longleftrightarrow> (\<forall>s. body c = Cmd_symtab s \<longrightarrow> string_table s = None)"

section \<open>Notions for the claims on what the decode depends on\<close>

text \<open>
  Two states of the stream have the same cursor when position, calls so far and file
  length agree; the bytes may differ.
\<close>

definition same_cursor :: "FILE \<Rightarrow> FILE \<Rightarrow> bool" where
  "same_cursor f f' \<longleftrightarrow>
     pos f = pos f' \<and> calls f = calls f' \<and> length (contents f) = length (contents f')"

text \<open>
  A reader is forward when it never changes the bytes, moves the cursor only onwards
  and not past the end of the file, and when its value and its cursor depend on the
  file only through the bytes it passes over.
\<close>

definition forward :: "(FILE, 'a) state \<Rightarrow> bool" where
  "forward m \<longleftrightarrow>
     (\<forall>f. contents (snd (run_state m f)) = contents f \<and>
          pos f \<le> pos (snd (run_state m f)) \<and>
          pos (snd (run_state m f)) \<le> max (pos f) (length (contents f))) \<and>
     (\<forall>f f'. same_cursor f f' \<and>
          (\<forall>j. pos f \<le> j \<and> j < pos (snd (run_state m f)) \<longrightarrow>
               contents f ! j = contents f' ! j) \<longrightarrow>
          fst (run_state m f) = fst (run_state m f') \<and>
          same_cursor (snd (run_state m f)) (snd (run_state m f')))"

text \<open>The switch of \<^verbatim>\<open>parse_command\<close>, after the tag and the size have been read.\<close>

definition switch_cmd :: "uninit \<Rightarrow> nat \<Rightarrow> u32 \<Rightarrow> u32 \<Rightarrow> (FILE, error + load_command_t) state" where
  "switch_cmd u i t z =
     (if t = LC_SEGMENT_64 then do {
       segment \<leftarrow> read_segment u i;
       State_Monad.return (Inr \<lparr>cmd = t, cmd_size = z, body = Cmd_seg_64 segment\<rparr>)
     } else if t = LC_DYSYMTAB then do {
       dysymtab \<leftarrow> read_dysymtab (u_dysymtab u i);
       State_Monad.return (Inr \<lparr>cmd = t, cmd_size = z, body = Cmd_dysymtab dysymtab\<rparr>)
     } else if t = LC_SYMTAB then do {
       symtab \<leftarrow> read_symtab (u_symtab u i);
       State_Monad.return (Inr \<lparr>cmd = t, cmd_size = z, body = Cmd_symtab symtab\<rparr>)
     } else if t = LC_BUILD_VERSION then do {
       build_ver \<leftarrow> read_build_version (u_build_ver u i);
       State_Monad.return (Inr \<lparr>cmd = t, cmd_size = z, body = Cmd_build_version build_ver\<rparr>)
     } else State_Monad.return (Inl (Unexpected_tag t)))"

text \<open>The header and the first loop, without the resolver.\<close>

definition first_pass :: "uninit \<Rightarrow> (FILE, error + load_command_t list) state" where
  "first_pass u = do {
     object_file \<leftarrow> read_header;
     parse_commands u 0 (unat (number_of_load_commands object_file))
   }"

text \<open>
  The offsets of the bytes that the first loop reads into \<^verbatim>\<open>cmd_size\<close>, found by
  running the loop: each iteration starts at the cursor with the tag, and the four
  bytes behind the tag are the size.
\<close>

fun cmd_size_offsets :: "uninit \<Rightarrow> nat \<Rightarrow> nat \<Rightarrow> FILE \<Rightarrow> nat set" where
  "cmd_size_offsets u i 0 f = {}"
| "cmd_size_offsets u i (Suc n) f = {pos f + 4 ..< pos f + 8} \<union>
     (case run_state (parse_command u i) f of
        (Inl e, f') \<Rightarrow> {}
      | (Inr c, f') \<Rightarrow> cmd_size_offsets u (Suc i) n f')"

definition cmd_size_fields :: "uninit \<Rightarrow> u8 list \<Rightarrow> nat set" where
  "cmd_size_fields u bs = (case run_state read_header (fopen bs) of
     (h, f) \<Rightarrow> cmd_size_offsets u 0 (unat (number_of_load_commands h)) f)"

text \<open>
  The command the resolver acts on, and the offsets of the bytes it reads as symbol
  entries when it decodes the stream \<open>bs\<close>.
\<close>

fun first_symtab :: "load_command_t list \<Rightarrow> symtab_command_t option" where
  "first_symtab [] = None"
| "first_symtab (c # cs) =
     (if cmd c = LC_SYMTAB then (case body c of Cmd_symtab s \<Rightarrow> Some s | _ \<Rightarrow> None)
      else first_symtab cs)"

definition symbol_range :: "load_command_t list \<Rightarrow> nat set" where
  "symbol_range cs = (case first_symtab cs of
       None \<Rightarrow> {}
     | Some s \<Rightarrow> {unat (symoff s) ..< unat (symoff s) + 16 * unat (nsyms s)})"

definition symbol_entry_bytes :: "uninit \<Rightarrow> u8 list \<Rightarrow> nat set" where
  "symbol_entry_bytes u bs = (case fst (run_state (first_pass u) (fopen bs)) of
       Inl e \<Rightarrow> {}
     | Inr cs \<Rightarrow> symbol_range cs)"

definition erase_cmd_size :: "load_command_t \<Rightarrow> load_command_t" where
  "erase_cmd_size c = c\<lparr>cmd_size := 0\<rparr>"

definition erase_cmd_sizes :: "mach_object_file_t \<Rightarrow> mach_object_file_t" where
  "erase_cmd_sizes obj = obj\<lparr>commands := map erase_cmd_size (commands obj)\<rparr>"

definition erase_header_fields :: "mach_object_file_t \<Rightarrow> mach_object_file_t" where
  "erase_header_fields obj = obj\<lparr>magic := 0, cpu_type := 0, cpu_subtype := 0,
     file_type := 0, size_of_load_commands := 0, flags := 0, reserved := 0\<rparr>"

text \<open>A reader that moves the cursor by at most \<open>b\<close> bytes.\<close>

definition at_most :: "(FILE, 'a) state \<Rightarrow> nat \<Rightarrow> bool" where
  "at_most m b \<longleftrightarrow> (\<forall>f. pos (snd (run_state m f)) \<le> pos f + b)"

text \<open>
  Two small streams in which the symbol table lies over other fields: a header and one
  symbol-table command of one entry, with \<^verbatim>\<open>symoff\<close> pointing at the command itself
  (offset 32) in the first and at the header (offset 0) in the second.
\<close>

definition size_overlap_object :: "u32 \<Rightarrow> mach_object_file_t" where
  "size_overlap_object z = \<lparr>magic = 0xFEEDFACF, cpu_type = 0x100000C, cpu_subtype = 0,
     file_type = 1, number_of_load_commands = 1, size_of_load_commands = 0x18, flags = 0,
     reserved = 0,
     commands = [\<lparr>cmd = 0x2, cmd_size = z, body = Cmd_symtab
       \<lparr>symoff = 0x20, nsyms = 1, stroff = 0x38, strsize = 0, string_table = None,
        symbol_table = None\<rparr>\<rparr>]\<rparr>"

definition size_overlap_stream :: "u8 list" where
  "size_overlap_stream =
     [0xCF, 0xFA, 0xED, 0xFE,  0x0C, 0x00, 0x00, 0x01,  0x00, 0x00, 0x00, 0x00,
      0x01, 0x00, 0x00, 0x00,  0x01, 0x00, 0x00, 0x00,  0x18, 0x00, 0x00, 0x00,
      0x00, 0x00, 0x00, 0x00,  0x00, 0x00, 0x00, 0x00,
      0x02, 0x00, 0x00, 0x00,  0x18, 0x00, 0x00, 0x00,  0x20, 0x00, 0x00, 0x00,
      0x01, 0x00, 0x00, 0x00,  0x38, 0x00, 0x00, 0x00,  0x00, 0x00, 0x00, 0x00]"

definition magic_overlap_object :: "u32 \<Rightarrow> mach_object_file_t" where
  "magic_overlap_object m = \<lparr>magic = m, cpu_type = 0x100000C, cpu_subtype = 0,
     file_type = 1, number_of_load_commands = 1, size_of_load_commands = 0x18, flags = 0,
     reserved = 0,
     commands = [\<lparr>cmd = 0x2, cmd_size = 0x18, body = Cmd_symtab
       \<lparr>symoff = 0, nsyms = 1, stroff = 0x38, strsize = 0, string_table = None,
        symbol_table = None\<rparr>\<rparr>]\<rparr>"

definition magic_overlap_stream :: "u8 list" where
  "magic_overlap_stream =
     [0xCF, 0xFA, 0xED, 0xFE,  0x0C, 0x00, 0x00, 0x01,  0x00, 0x00, 0x00, 0x00,
      0x01, 0x00, 0x00, 0x00,  0x01, 0x00, 0x00, 0x00,  0x18, 0x00, 0x00, 0x00,
      0x00, 0x00, 0x00, 0x00,  0x00, 0x00, 0x00, 0x00,
      0x02, 0x00, 0x00, 0x00,  0x18, 0x00, 0x00, 0x00,  0x00, 0x00, 0x00, 0x00,
      0x01, 0x00, 0x00, 0x00,  0x38, 0x00, 0x00, 0x00,  0x00, 0x00, 0x00, 0x00]"

section \<open>The text report\<close>

text \<open>
  \<^verbatim>\<open>pretty_print\<close> writes the object to standard output with \<^verbatim>\<open>printf\<close>. The report is
  modelled as the string written. \<^verbatim>\<open>%08x\<close> applied to a 32-bit value is its eight
  hexadecimal digits, \<^verbatim>\<open>%016llx\<close> applied to a 64-bit value its sixteen, both in lower
  case and padded with zeros: \<open>hex n w\<close> is the \<open>n\<close> lowest digits of \<open>w\<close>, the most
  significant first.
\<close>

definition hexdigit :: "nat \<Rightarrow> char" where
  "hexdigit d = ''0123456789abcdef'' ! d"

definition hex :: "nat \<Rightarrow> 'a::len word \<Rightarrow> string" where
  "hex n w = map (\<lambda>i. hexdigit (unat (drop_bit (4 * i) w AND 0xF))) (rev [0..<n])"

definition newline :: char where
  "newline = CHR 0x0A"

definition tab :: char where
  "tab = CHR 0x09"

definition dquote :: char where
  "dquote = CHR 0x22"

text \<open>
  \<^verbatim>\<open>%s\<close> applied to the 16-byte array \<^verbatim>\<open>segname\<close> writes the bytes before the first
  zero byte. When the array holds no zero byte \<^verbatim>\<open>printf\<close> runs past its end; the
  model gives no text then.
\<close>

definition c_string :: "u8 list \<Rightarrow> string option" where
  "c_string a = (if 0 \<in> set a
     then Some (map (\<lambda>b. char_of (unat b)) (takeWhile (\<lambda>b. b \<noteq> 0) a)) else None)"

text \<open>
  The header lines and the rule below them, then one block for each kind of command,
  each line one \<^verbatim>\<open>printf\<close> of the source, with the labels, the spacing and the
  arguments of the source. The block of a segment command is headed \<^verbatim>\<open>LC_SYMTAB\<close> and
  its \<^verbatim>\<open>vmsize\<close> line is given \<^verbatim>\<open>cmd.cmd_seg_64.vmaddr\<close>, as in the source.
\<close>

definition print_header :: "mach_object_file_t \<Rightarrow> string" where
  "print_header obj =
     ''magic                       : 0x'' @ hex 8 (magic obj) @ [newline] @
     ''cpu_type                    : 0x'' @ hex 8 (cpu_type obj) @ [newline] @
     ''cpu_subtype                 : 0x'' @ hex 8 (cpu_subtype obj) @ [newline] @
     ''file_type                   : 0x'' @ hex 8 (file_type obj) @ [newline] @
     ''number_of_load_commands     : 0x'' @ hex 8 (number_of_load_commands obj) @ [newline] @
     ''size_of_load_commands       : 0x'' @ hex 8 (size_of_load_commands obj) @ [newline] @
     ''flags                       : 0x'' @ hex 8 (flags obj) @ [newline] @
     ''reserved                    : 0x'' @ hex 8 (reserved obj) @ [newline] @
     ''---------------------------------------'' @ [newline]"

definition print_segment :: "load_command_t \<Rightarrow> segment_command_64_t \<Rightarrow> string \<Rightarrow> string" where
  "print_segment c g name =
     ''LC_SYMTAB (0x'' @ hex 8 (cmd c) @ '')'' @ [newline] @
     [tab] @ ''segname       : '' @ [dquote] @ name @ [dquote] @ [newline] @
     [tab] @ ''vmaddr        : 0x'' @ hex 16 (vmaddr g) @ [newline] @
     [tab] @ ''vmsize        : 0x'' @ hex 16 (vmaddr g) @ [newline] @
     [tab] @ ''fileoff       : 0x'' @ hex 16 (fileoff g) @ [newline] @
     [tab] @ ''filesize      : 0x'' @ hex 16 (filesize g) @ [newline] @
     [tab] @ ''maxprot       : 0x'' @ hex 8 (maxprot g) @ [newline] @
     [tab] @ ''initprot      : 0x'' @ hex 8 (initprot g) @ [newline] @
     [tab] @ ''nsects        : 0x'' @ hex 8 (nsects g) @ [newline] @
     [tab] @ ''flags         : 0x'' @ hex 8 (seg_flags g) @ [newline] @
     [newline]"

definition print_build_version :: "load_command_t \<Rightarrow> build_version_command_t \<Rightarrow> string" where
  "print_build_version c b =
     ''LC_BUILD_VERSION (0x'' @ hex 8 (cmd c) @ '')'' @ [newline] @
     [tab] @ ''platform : 0x'' @ hex 8 (platform b) @ [newline] @
     [tab] @ ''minos    : 0x'' @ hex 8 (minos b) @ [newline] @
     [tab] @ ''sdk      : 0x'' @ hex 8 (sdk b) @ [newline] @
     [tab] @ ''ntools   : 0x'' @ hex 8 (ntools b) @ [newline] @
     [newline]"

definition print_symtab :: "load_command_t \<Rightarrow> symtab_command_t \<Rightarrow> string" where
  "print_symtab c s =
     ''LC_SYMTAB (0x'' @ hex 8 (cmd c) @ '')'' @ [newline] @
     [tab] @ ''symoff  : 0x'' @ hex 8 (symoff s) @ [newline] @
     [tab] @ ''nsyms   : 0x'' @ hex 8 (nsyms s) @ [newline] @
     [tab] @ ''stroff  : 0x'' @ hex 8 (stroff s) @ [newline] @
     [tab] @ ''strsize : 0x'' @ hex 8 (strsize s) @ [newline] @ [newline]"

definition print_dysymtab :: "load_command_t \<Rightarrow> dysymtab_command_t \<Rightarrow> string" where
  "print_dysymtab c d =
     ''LC_DYSYMTAB (0x'' @ hex 8 (cmd c) @ '')'' @ [newline] @
     [tab] @ ''ilocalsym     : 0x'' @ hex 8 (ilocalsym d) @ [newline] @
     [tab] @ ''nlocalsym     : 0x'' @ hex 8 (nlocalsym d) @ [newline] @
     [tab] @ ''iextdefsym     : 0x'' @ hex 8 (iextdefsym d) @ [newline] @
     [tab] @ ''nextdefsym     : 0x'' @ hex 8 (nextdefsym d) @ [newline] @
     [tab] @ ''iundefsym     : 0x'' @ hex 8 (iundefsym d) @ [newline] @
     [tab] @ ''nundefsym     : 0x'' @ hex 8 (nundefsym d) @ [newline] @
     [tab] @ ''tocoff     : 0x'' @ hex 8 (tocoff d) @ [newline] @
     [tab] @ ''ntoc     : 0x'' @ hex 8 (ntoc d) @ [newline] @
     [tab] @ ''modtaboff     : 0x'' @ hex 8 (modtaboff d) @ [newline] @
     [tab] @ ''nmodtab     : 0x'' @ hex 8 (nmodtab d) @ [newline] @
     [tab] @ ''extrefsymoff     : 0x'' @ hex 8 (extrefsymoff d) @ [newline] @
     [tab] @ ''nextrefsyms     : 0x'' @ hex 8 (nextrefsyms d) @ [newline] @
     [tab] @ ''indirectsymoff     : 0x'' @ hex 8 (indirectsymoff d) @ [newline] @
     [tab] @ ''nindirectsyms     : 0x'' @ hex 8 (nindirectsyms d) @ [newline] @
     [tab] @ ''extreloff     : 0x'' @ hex 8 (extreloff d) @ [newline] @
     [tab] @ ''nextrel     : 0x'' @ hex 8 (nextrel d) @ [newline] @
     [tab] @ ''locreloff     : 0x'' @ hex 8 (locreloff d) @ [newline] @
     [tab] @ ''nlocrel     : 0x'' @ hex 8 (nlocrel d) @ [newline] @ [newline]"

definition print_unknown :: "load_command_t \<Rightarrow> string" where
  "print_unknown c =
     ''unknown opcode encountered : 0x'' @ hex 8 (cmd c) @ [newline]"

text \<open>
  The \<^verbatim>\<open>switch\<close> on \<^verbatim>\<open>cmd.cmd\<close>, in the order of the source. Each case reads the
  member of the union that belongs to its tag; there is no text when the command holds
  another member.
\<close>

definition print_command :: "load_command_t \<Rightarrow> string option" where
  "print_command c =
     (if cmd c = LC_SEGMENT_64 then
        (case body c of
           Cmd_seg_64 g \<Rightarrow> map_option (print_segment c g) (c_string (segname g))
         | _ \<Rightarrow> None)
      else if cmd c = LC_BUILD_VERSION then
        (case body c of Cmd_build_version b \<Rightarrow> Some (print_build_version c b) | _ \<Rightarrow> None)
      else if cmd c = LC_SYMTAB then
        (case body c of Cmd_symtab s \<Rightarrow> Some (print_symtab c s) | _ \<Rightarrow> None)
      else if cmd c = LC_DYSYMTAB then
        (case body c of Cmd_dysymtab d \<Rightarrow> Some (print_dysymtab c d) | _ \<Rightarrow> None)
      else Some (print_unknown c))"

text \<open>
  The loop \<^verbatim>\<open>for (i = 0; i < object_file.number_of_load_commands; i++)\<close> over
  \<^verbatim>\<open>object_file.commands\<close>: \<open>print_loop cs n\<close> is the text of the next \<open>n\<close>
  commands of \<open>cs\<close>. There is no text when the array ends before the count does.
\<close>

fun print_loop :: "load_command_t list \<Rightarrow> nat \<Rightarrow> string option" where
  "print_loop cs 0 = Some []"
| "print_loop [] (Suc n) = None"
| "print_loop (c # cs) (Suc n) =
     (case print_command c of
        None \<Rightarrow> None
      | Some block \<Rightarrow> map_option ((@) block) (print_loop cs n))"

definition pretty_print :: "mach_object_file_t \<Rightarrow> string option" where
  "pretty_print obj =
     map_option ((@) (print_header obj))
       (print_loop (commands obj) (unat (number_of_load_commands obj)))"

text \<open>
  What the report is compared with. \<open>rendered c\<close> is the command \<open>c\<close> without the
  fields no line of its block is given: \<^verbatim>\<open>cmd_size\<close>, the \<^verbatim>\<open>vmsize\<close> and the sections
  of a segment, the bytes of \<^verbatim>\<open>segname\<close> from the first zero byte on, and the string
  and symbol tables of a symbol-table command.
\<close>

definition rendered :: "load_command_t \<Rightarrow> load_command_t" where
  "rendered c = c\<lparr>cmd_size := 0, body :=
     (case body c of
        Cmd_seg_64 g \<Rightarrow> Cmd_seg_64 (g\<lparr>segname := takeWhile (\<lambda>b. b \<noteq> 0) (segname g),
          vmsize := 0, sections := []\<rparr>)
      | Cmd_symtab s \<Rightarrow> Cmd_symtab (s\<lparr>string_table := None, symbol_table := None\<rparr>)
      | b \<Rightarrow> b)\<rparr>"

definition rendered_object :: "mach_object_file_t \<Rightarrow> mach_object_file_t" where
  "rendered_object obj = obj\<lparr>commands := map rendered (commands obj)\<rparr>"

definition terminated :: "load_command_t \<Rightarrow> bool" where
  "terminated c = (case body c of Cmd_seg_64 g \<Rightarrow> 0 \<in> set (segname g) | _ \<Rightarrow> True)"

definition name_fits :: "load_command_t \<Rightarrow> bool" where
  "name_fits c = (case body c of Cmd_seg_64 g \<Rightarrow> length (segname g) \<le> 16 | _ \<Rightarrow> True)"

section \<open>Bytes and words\<close>

lemma bit_word_of_bytes_Cons:
  "bit (word_of_bytes (b # bs) :: 'a::len word) n \<longleftrightarrow>
     (n < LENGTH('a) \<and> bit b n) \<or>
     (8 \<le> n \<and> n < LENGTH('a) \<and> bit (word_of_bytes bs :: 'a word) (n - 8))"
  by (simp add: bit_or_iff bit_ucast_iff bit_push_bit_iff)

lemma bit_u8_less: "bit (b :: u8) n \<Longrightarrow> n < 8"
  using bit_imp_le_length[of b n] by simp

lemma bit_word_of_bytes:
  "bit (word_of_bytes bs :: 'a::len word) n \<longleftrightarrow>
     n < LENGTH('a) \<and> n div 8 < length bs \<and> bit (bs ! (n div 8)) (n mod 8)"
proof (induction bs arbitrary: n)
  case Nil
  then show ?case by simp
next
  case (Cons b bs)
  show ?case
  proof (cases "n < 8")
    case True
    then show ?thesis
      unfolding bit_word_of_bytes_Cons by simp
  next
    case False
    then obtain m where m: "n = m + 8"
      by (metis add.commute le_add_diff_inverse not_less)
    have d: "(m + 8) div 8 = Suc (m div 8)" "(m + 8) mod 8 = m mod 8"
      by simp_all
    have nb: "\<not> bit b (m + 8)"
      using bit_u8_less[of b "m + 8"] by auto
    show ?thesis
      unfolding bit_word_of_bytes_Cons m d
      using nb Cons.IH[of m] by auto
  qed
qed

lemma word_of_bytes_slices:
  assumes "LENGTH('a::len) \<le> 8 * k"
  shows "word_of_bytes (map (\<lambda>j. ucast (drop_bit (8 * j) w)) [0..<k]) = (w :: 'a word)"
proof (rule bit_word_eqI)
  fix n assume n: "n < LENGTH('a)"
  then have "n div 8 < k" using assms by auto
  then show "bit (word_of_bytes (map (\<lambda>j. ucast (drop_bit (8 * j) w)) [0..<k]) :: 'a word) n = bit w n"
    using n by (simp add: bit_word_of_bytes bit_ucast_iff bit_drop_bit_eq)
qed

lemma word_of_bytes_u8 [simp]: "word_of_bytes (bytes_of_u8 w) = w"
  by (simp add: bytes_of_u8_def)

lemma word_of_bytes_u16 [simp]: "word_of_bytes (bytes_of_u16 w) = w"
proof -
  have "bytes_of_u16 w = map (\<lambda>j. ucast (drop_bit (8 * j) w)) [0..<2]"
    by (simp add: bytes_of_u16_def upt_conv_Cons)
  then show ?thesis using word_of_bytes_slices[of 2 w] by (simp del: word_of_bytes.simps)
qed

lemma word_of_bytes_u32 [simp]: "word_of_bytes (bytes_of_u32 w) = w"
proof -
  have "bytes_of_u32 w = map (\<lambda>j. ucast (drop_bit (8 * j) w)) [0..<4]"
    by (simp add: bytes_of_u32_def upt_conv_Cons)
  then show ?thesis using word_of_bytes_slices[of 4 w] by (simp del: word_of_bytes.simps)
qed

lemma word_of_bytes_u64 [simp]: "word_of_bytes (bytes_of_u64 w) = w"
proof -
  have "bytes_of_u64 w = map (\<lambda>j. ucast (drop_bit (8 * j) w)) [0..<8]"
    by (simp add: bytes_of_u64_def upt_conv_Cons)
  then show ?thesis using word_of_bytes_slices[of 8 w] by (simp del: word_of_bytes.simps)
qed

lemma length_bytes_of [simp]:
  "length (bytes_of_u8 a) = 1" "length (bytes_of_u16 b) = 2"
  "length (bytes_of_u32 c) = 4" "length (bytes_of_u64 d) = 8"
  by (simp_all add: bytes_of_u8_def bytes_of_u16_def bytes_of_u32_def bytes_of_u64_def)

subsection \<open>Reading back what was written\<close>

lemma reads_return: "reads (State_Monad.return v) [] v"
  by (simp add: reads_def)

lemma reads_bind:
  assumes "reads m bs v" and "reads (k v) bs' v'"
  shows "reads (State_Monad.bind m k) (bs @ bs') v'"
  unfolding reads_def
proof (intro allI impI)
  fix f :: FILE and rest
  assume d: "drop (pos f) (contents f) = (bs @ bs') @ rest"
  obtain a f1 where r: "run_state m f = (a, f1)" by (cases "run_state m f")
  from d have "drop (pos f) (contents f) = bs @ (bs' @ rest)" by simp
  with assms(1) r have 1: "a = v" "pos f1 = pos f + length bs" "contents f1 = contents f"
    unfolding reads_def by fastforce+
  have "drop (pos f1) (contents f1) = drop (length bs) (drop (pos f) (contents f))"
    using 1 by (simp add: add.commute)
  also have "\<dots> = bs' @ rest" using d by simp
  finally have "fst (run_state (k v) f1) = v' \<and>
      pos (snd (run_state (k v) f1)) = pos f1 + length bs' \<and>
      contents (snd (run_state (k v) f1)) = contents f1"
    using assms(2) unfolding reads_def by blast
  then show "fst (run_state (State_Monad.bind m k) f) = v' \<and>
     pos (snd (run_state (State_Monad.bind m k) f)) = pos f + length (bs @ bs') \<and>
     contents (snd (run_state (State_Monad.bind m k) f)) = contents f"
    using r 1 by simp
qed

lemma reads_bind_return:
  assumes "reads m bs v"
  shows "reads (State_Monad.bind m (\<lambda>x. State_Monad.return (g x))) bs (g v)"
  using reads_bind[OF assms reads_return, of "\<lambda>x. g x"] by simp

lemma drop_eq_append_length:
  assumes "drop p xs = bs @ rest"
  shows "length bs \<le> length xs - p"
proof -
  have "length (drop p xs) = length bs + length rest" using assms by simp
  then show ?thesis by simp
qed

lemma reads_fread:
  assumes "length bs = sz * n"
  shows "reads (fread old sz n) bs bs"
  unfolding reads_def
proof (intro allI impI)
  fix f :: FILE and rest
  assume d: "drop (pos f) (contents f) = bs @ rest"
  then have "take (sz * n) (drop (pos f) (contents f)) = bs"
    using assms by simp
  moreover have "sz * n \<le> length (contents f) - pos f"
    using drop_eq_append_length[OF d] assms by simp
  ultimately show "fst (run_state (fread old sz n) f) = bs \<and>
        pos (snd (run_state (fread old sz n) f)) = pos f + length bs \<and>
        contents (snd (run_state (fread old sz n) f)) = contents f"
    using assms by (simp add: fread_def Let_def)
qed

lemma reads_fread_u32: "reads (fread_u32 old) (bytes_of_u32 w) w"
  unfolding fread_u32_def
  using reads_bind_return[OF reads_fread[of "bytes_of_u32 w" 4 1 "bytes_of_u32 old"],
      of "word_of_bytes :: u8 list \<Rightarrow> u32"]
  by simp

lemma reads_fread_u64: "reads (fread_u64 old) (bytes_of_u64 w) w"
  unfolding fread_u64_def
  using reads_bind_return[OF reads_fread[of "bytes_of_u64 w" 8 1 "bytes_of_u64 old"],
      of "word_of_bytes :: u8 list \<Rightarrow> u64"]
  by simp

lemma reads_fread_u16: "reads (fread_u16 old) (bytes_of_u16 w) w"
  unfolding fread_u16_def
  using reads_bind_return[OF reads_fread[of "bytes_of_u16 w" 2 1 "bytes_of_u16 old"],
      of "word_of_bytes :: u8 list \<Rightarrow> u16"]
  by simp

lemma reads_fread_u8: "reads (fread_u8 old) (bytes_of_u8 w) w"
  unfolding fread_u8_def
  using reads_bind_return[OF reads_fread[of "bytes_of_u8 w" 1 1 "bytes_of_u8 old"],
      of "word_of_bytes :: u8 list \<Rightarrow> u8"]
  by simp

lemma reads_fread_name: "length bs = 16 \<Longrightarrow> reads (fread_name old) bs bs"
  unfolding fread_name_def using reads_fread[of bs 1 16 old] by simp

lemmas reads_steps = reads_bind_return reads_bind reads_fread_u32 reads_fread_u64
  reads_fread_u16 reads_fread_u8

lemma reads_symtab:
  "reads (read_symtab old) (enc_symtab s) (s\<lparr>string_table := None, symbol_table := None\<rparr>)"
proof -
  have "reads (read_symtab old)
     (bytes_of_u32 a @ bytes_of_u32 b @ bytes_of_u32 c @ bytes_of_u32 d)
     \<lparr>symoff = a, nsyms = b, stroff = c, strsize = d, string_table = None,
       symbol_table = None\<rparr>" for a b c d
    unfolding read_symtab_def by (rule reads_steps)+
  from this[of "symoff s" "nsyms s" "stroff s" "strsize s"]
  show ?thesis by (cases s) (simp add: enc_symtab_def)
qed

lemma reads_build_version:
  "reads (read_build_version old) (enc_build_version b) b"
proof -
  have "reads (read_build_version old)
     (bytes_of_u32 a @ bytes_of_u32 b @ bytes_of_u32 c @ bytes_of_u32 d)
     \<lparr>platform = a, minos = b, sdk = c, ntools = d\<rparr>" for a b c d
    unfolding read_build_version_def by (rule reads_steps)+
  from this[of "platform b" "minos b" "sdk b" "ntools b"]
  show ?thesis by (cases b) (simp add: enc_build_version_def)
qed

lemma reads_dysymtab:
  "reads (read_dysymtab old) (enc_dysymtab d) d"
proof -
  have "reads (read_dysymtab old)
     (bytes_of_u32 a1 @ bytes_of_u32 a2 @ bytes_of_u32 a3 @ bytes_of_u32 a4 @
      bytes_of_u32 a5 @ bytes_of_u32 a6 @ bytes_of_u32 a7 @ bytes_of_u32 a8 @
      bytes_of_u32 a9 @ bytes_of_u32 a10 @ bytes_of_u32 a11 @ bytes_of_u32 a12 @
      bytes_of_u32 a13 @ bytes_of_u32 a14 @ bytes_of_u32 a15 @ bytes_of_u32 a16 @
      bytes_of_u32 a17 @ bytes_of_u32 a18)
     \<lparr>ilocalsym = a1, nlocalsym = a2, iextdefsym = a3, nextdefsym = a4, iundefsym = a5,
       nundefsym = a6, tocoff = a7, ntoc = a8, modtaboff = a9, nmodtab = a10,
       extrefsymoff = a11, nextrefsyms = a12, indirectsymoff = a13, nindirectsyms = a14,
       extreloff = a15, nextrel = a16, locreloff = a17, nlocrel = a18\<rparr>"
    for a1 a2 a3 a4 a5 a6 a7 a8 a9 a10 a11 a12 a13 a14 a15 a16 a17 a18
    unfolding read_dysymtab_def by (rule reads_steps)+
  from this[of "ilocalsym d" "nlocalsym d" "iextdefsym d" "nextdefsym d" "iundefsym d"
      "nundefsym d" "tocoff d" "ntoc d" "modtaboff d" "nmodtab d" "extrefsymoff d"
      "nextrefsyms d" "indirectsymoff d" "nindirectsyms d" "extreloff d" "nextrel d"
      "locreloff d" "nlocrel d"]
  show ?thesis by (cases d) (simp add: enc_dysymtab_def)
qed

lemma reads_section:
  assumes "wf_section s"
  shows "reads (read_section old) (enc_section s) s"
proof -
  have "reads (read_section old)
     (n1 @ n2 @ bytes_of_u64 a1 @ bytes_of_u64 a2 @ bytes_of_u32 a3 @ bytes_of_u32 a4 @
      bytes_of_u32 a5 @ bytes_of_u32 a6 @ bytes_of_u32 a7 @ bytes_of_u32 a8 @
      bytes_of_u32 a9 @ bytes_of_u32 a10)
     \<lparr>sectname = n1, sect_segname = n2, addr = a1, sect_size = a2, offset = a3,
       align = a4, reloff = a5, nreloc = a6, sect_flags = a7, reserved1 = a8,
       reserved2 = a9, reserved3 = a10\<rparr>"
    if "length n1 = 16" "length n2 = 16"
    for n1 n2 a1 a2 a3 a4 a5 a6 a7 a8 a9 a10
    unfolding read_section_def
    by (rule reads_steps reads_fread_name[OF that(1)] reads_fread_name[OF that(2)])+
  from this[of "sectname s" "sect_segname s" "addr s" "sect_size s" "offset s" "align s"
      "reloff s" "nreloc s" "sect_flags s" "reserved1 s" "reserved2 s" "reserved3 s"] assms
  show ?thesis by (cases s) (simp add: enc_section_def wf_section_def)
qed

lemma reads_sections:
  "list_all wf_section ss \<Longrightarrow>
   reads (read_sections u i k (length ss)) (concat (map enc_section ss)) ss"
proof (induction ss arbitrary: k)
  case Nil
  then show ?case by (simp add: reads_return)
next
  case (Cons s ss)
  then have s: "wf_section s" and ss: "list_all wf_section ss" by simp_all
  have "reads (read_sections u i k (Suc (length ss)))
          (enc_section s @ concat (map enc_section ss)) (s # ss)"
    unfolding read_sections.simps
    by (rule reads_bind[OF reads_section[OF s]] reads_bind_return Cons.IH[OF ss])+
  then show ?case by simp
qed

lemma reads_segment:
  assumes "length (segname g) = 16" "unat (nsects g) = length (sections g)"
    "list_all wf_section (sections g)"
  shows "reads (read_segment u i) (enc_segment g) g"
proof -
  have "reads (read_segment u i)
     (n1 @ bytes_of_u64 a1 @ bytes_of_u64 a2 @ bytes_of_u64 a3 @ bytes_of_u64 a4 @
      bytes_of_u32 a5 @ bytes_of_u32 a6 @ bytes_of_u32 a7 @ bytes_of_u32 a8 @
      concat (map enc_section ss))
     \<lparr>segname = n1, vmaddr = a1, vmsize = a2, fileoff = a3, filesize = a4, maxprot = a5,
       initprot = a6, nsects = a7, seg_flags = a8, sections = ss\<rparr>"
    if n: "length n1 = 16" and c: "unat a7 = length ss" and w: "list_all wf_section ss"
    for n1 a1 a2 a3 a4 a5 a6 a7 a8 ss
    unfolding read_segment_def
    by (rule reads_steps reads_fread_name[OF n] reads_sections[OF w, of u i 0, folded c])+
  from this[of "segname g" "nsects g" "sections g" "vmaddr g" "vmsize g" "fileoff g"
      "filesize g" "maxprot g" "initprot g" "seg_flags g"] assms
  show ?thesis by (cases g) (simp add: enc_segment_def)
qed

lemma LC_distinct [simp]:
  "LC_SEGMENT_64 \<noteq> LC_DYSYMTAB" "LC_SEGMENT_64 \<noteq> LC_SYMTAB" "LC_SEGMENT_64 \<noteq> LC_BUILD_VERSION"
  "LC_DYSYMTAB \<noteq> LC_SEGMENT_64" "LC_DYSYMTAB \<noteq> LC_SYMTAB" "LC_DYSYMTAB \<noteq> LC_BUILD_VERSION"
  "LC_SYMTAB \<noteq> LC_SEGMENT_64" "LC_SYMTAB \<noteq> LC_DYSYMTAB" "LC_SYMTAB \<noteq> LC_BUILD_VERSION"
  "LC_BUILD_VERSION \<noteq> LC_SEGMENT_64" "LC_BUILD_VERSION \<noteq> LC_DYSYMTAB"
  "LC_BUILD_VERSION \<noteq> LC_SYMTAB"
  by (simp_all add: LC_SEGMENT_64_def LC_DYSYMTAB_def LC_SYMTAB_def LC_BUILD_VERSION_def)

lemma reads_command:
  assumes "wf_command c"
  shows "reads (parse_command u i) (enc_command c) (Inr c)"
proof -
  obtain t z b where c: "c = \<lparr>cmd = t, cmd_size = z, body = b\<rparr>" by (cases c)
  have "reads (parse_command u i) (bytes_of_u32 t @ bytes_of_u32 z @ enc_body b)
          (Inr \<lparr>cmd = t, cmd_size = z, body = b\<rparr>)"
  proof (cases b)
    case (Cmd_seg_64 g)
    with assms c have t: "t = LC_SEGMENT_64" and g: "length (segname g) = 16"
      "unat (nsects g) = length (sections g)" "list_all wf_section (sections g)"
      by (simp_all add: wf_command_def)
    show ?thesis
      unfolding parse_command_def Cmd_seg_64 t enc_body.simps
      apply (rule reads_bind[OF reads_fread_u32])
      apply (rule reads_bind[OF reads_fread_u32])
      apply (simp only: if_True refl)
      apply (rule reads_bind_return[OF reads_segment[OF g]])
      done
  next
    case (Cmd_build_version v)
    with assms c have t: "t = LC_BUILD_VERSION" by (simp add: wf_command_def)
    show ?thesis
      unfolding parse_command_def Cmd_build_version t enc_body.simps
      apply (rule reads_bind[OF reads_fread_u32])
      apply (rule reads_bind[OF reads_fread_u32])
      apply (simp only: LC_distinct if_True if_False refl)
      apply (rule reads_bind_return[OF reads_build_version])
      done
  next
    case (Cmd_symtab s)
    with assms c have t: "t = LC_SYMTAB" and s: "string_table s = None" "symbol_table s = None"
      by (simp_all add: wf_command_def)
    have s': "s\<lparr>string_table := None, symbol_table := None\<rparr> = s"
      using s by (cases s) simp
    show ?thesis
      unfolding parse_command_def Cmd_symtab t enc_body.simps
      apply (rule reads_bind[OF reads_fread_u32])
      apply (rule reads_bind[OF reads_fread_u32])
      apply (simp only: LC_distinct if_True if_False refl)
      apply (rule reads_bind_return[OF reads_symtab[of _ s],
            where g = "\<lambda>symtab. Inr \<lparr>cmd = LC_SYMTAB, cmd_size = z, body = Cmd_symtab symtab\<rparr>",
            unfolded s'])
      done
  next
    case (Cmd_dysymtab d)
    with assms c have t: "t = LC_DYSYMTAB" by (simp add: wf_command_def)
    show ?thesis
      unfolding parse_command_def Cmd_dysymtab t enc_body.simps
      apply (rule reads_bind[OF reads_fread_u32])
      apply (rule reads_bind[OF reads_fread_u32])
      apply (simp only: LC_distinct if_True if_False refl)
      apply (rule reads_bind_return[OF reads_dysymtab])
      done
  qed
  then show ?thesis by (simp add: c enc_command_def)
qed

lemma reads_commands:
  "list_all wf_command cs \<Longrightarrow>
   reads (parse_commands u i (length cs)) (concat (map enc_command cs)) (Inr cs)"
proof (induction cs arbitrary: i)
  case Nil
  then show ?case by (simp add: reads_return)
next
  case (Cons c cs)
  then have c: "wf_command c" and cs: "list_all wf_command cs" by simp_all
  have "reads (parse_commands u i (Suc (length cs)))
          (enc_command c @ concat (map enc_command cs)) (Inr (c # cs))"
    unfolding parse_commands.simps
    apply (rule reads_bind[OF reads_command[OF c]])
    apply (simp only: sum.case)
    using reads_bind_return[OF Cons.IH[OF cs, of "Suc i"],
        of "\<lambda>rs. case rs of Inl e \<Rightarrow> Inl e | Inr rest \<Rightarrow> Inr (c # rest)"]
    apply simp
    done
  then show ?case by simp
qed

lemma reads_header:
  "reads read_header (enc_header h) (h\<lparr>commands := []\<rparr>)"
proof -
  have "reads read_header
     (bytes_of_u32 a1 @ bytes_of_u32 a2 @ bytes_of_u32 a3 @ bytes_of_u32 a4 @
      bytes_of_u32 a5 @ bytes_of_u32 a6 @ bytes_of_u32 a7 @ bytes_of_u32 a8)
     \<lparr>magic = a1, cpu_type = a2, cpu_subtype = a3, file_type = a4,
       number_of_load_commands = a5, size_of_load_commands = a6, flags = a7,
       reserved = a8, commands = []\<rparr>" for a1 a2 a3 a4 a5 a6 a7 a8
    unfolding read_header_def by (rule reads_steps)+
  from this[of "magic h" "cpu_type h" "cpu_subtype h" "file_type h"
      "number_of_load_commands h" "size_of_load_commands h" "flags h" "reserved h"]
  show ?thesis by (cases h) (simp add: enc_header_def)
qed

section \<open>Decoding what was written\<close>

lemma resolve_symtab_value:
  "\<exists>es. fst (run_state (resolve_symtab u s) f) = s\<lparr>symbol_table := Some es\<rparr>"
  by (simp add: resolve_symtab_def split_def) blast

lemma unresolved_resolve_commands:
  "map unresolved (fst (run_state (resolve_commands u cs) f)) = map unresolved cs"
proof (induction cs arbitrary: f)
  case Nil
  then show ?case by simp
next
  case (Cons c cs)
  show ?case
  proof (cases "cmd c = LC_SYMTAB")
    case True
    show ?thesis
    proof (cases "body c")
      case (Cmd_symtab s)
      obtain es where "fst (run_state (resolve_symtab u s) f) = s\<lparr>symbol_table := Some es\<rparr>"
        using resolve_symtab_value by blast
      then show ?thesis
        using True Cmd_symtab by (simp add: split_def unresolved_def)
    qed (use True in simp_all)
  next
    case False
    then show ?thesis using Cons.IH by (simp add: split_def)
  qed
qed



lemma parse_file_wf:
  assumes n: "unat (number_of_load_commands h) = length (commands h)"
    and wf: "list_all wf_command (commands h)"
  shows "\<exists>f2. contents f2 = enc_file h @ rest \<and> pos f2 = length (enc_file h) \<and>
     run_state (parse_file u) (fopen (enc_file h @ rest)) =
       (Inr (h\<lparr>commands := fst (run_state (resolve_commands u (commands h)) f2)\<rparr>),
        snd (run_state (resolve_commands u (commands h)) f2))"
proof -
  let ?f = "fopen (enc_file h @ rest)"
  let ?cs = "commands h"
  have d0: "drop (pos ?f) (contents ?f) = enc_header h @ (concat (map enc_command ?cs) @ rest)"
    by (simp add: fopen_def enc_file_def)
  obtain h1 f1 where r1: "run_state read_header ?f = (h1, f1)"
    by (cases "run_state read_header ?f")
  with reads_header[of h] d0 have h1: "h1 = h\<lparr>commands := []\<rparr>"
    and f1: "pos f1 = pos ?f + length (enc_header h)" "contents f1 = contents ?f"
    unfolding reads_def by fastforce+
  have "drop (pos f1) (contents f1) = drop (length (enc_header h)) (drop (pos ?f) (contents ?f))"
    using f1 by (simp add: add.commute)
  then have d1: "drop (pos f1) (contents f1) = concat (map enc_command ?cs) @ rest"
    unfolding d0 by simp
  obtain r f2 where r2: "run_state (parse_commands u 0 (length ?cs)) f1 = (r, f2)"
    by (cases "run_state (parse_commands u 0 (length ?cs)) f1")
  with reads_commands[OF wf, of u 0] d1 have r: "r = Inr ?cs"
    and f2: "pos f2 = pos f1 + length (concat (map enc_command ?cs))" "contents f2 = contents f1"
    unfolding reads_def by fastforce+
  have "run_state (parse_file u) ?f =
       (Inr (h\<lparr>commands := fst (run_state (resolve_commands u ?cs) f2)\<rparr>),
        snd (run_state (resolve_commands u ?cs) f2))"
    unfolding parse_file_def using r1 r2 r h1 n by (simp add: split_def)
  moreover have "contents f2 = enc_file h @ rest" "pos f2 = length (enc_file h)"
    using f1 f2 by (simp_all add: fopen_def enc_file_def)
  ultimately show ?thesis by blast
qed


lemmas sample_defs = sample_object_def sample_segment_def sample_section_def
  sample_build_version_def sample_symtab_def sample_dysymtab_def

lemma sample_count: "unat (number_of_load_commands sample_object) = length (commands sample_object)"
  by (simp add: sample_object_def)

lemma sample_wf: "list_all wf_command (commands sample_object)"
  by (simp add: sample_defs wf_command_def wf_section_def LC_SEGMENT_64_def
      LC_BUILD_VERSION_def LC_SYMTAB_def LC_DYSYMTAB_def)


section \<open>The symbol-table resolver\<close>

lemma reads_entry: "reads (read_entry old) (enc_entry e) e"
proof -
  have "reads (read_entry old)
     (bytes_of_u32 a @ bytes_of_u8 b @ bytes_of_u8 c @ bytes_of_u16 d @ bytes_of_u64 v)
     \<lparr>n_strx = a, n_type = b, n_sect = c, n_desc = d, n_value = v\<rparr>" for a b c d v
    unfolding read_entry_def by (rule reads_steps)+
  from this[of "n_strx e" "n_type e" "n_sect e" "n_desc e" "n_value e"]
  show ?thesis by (cases e) (simp add: enc_entry_def)
qed

lemma reads_entries:
  "reads (read_entries u k (length es)) (concat (map enc_entry es)) es"
proof (induction es arbitrary: k)
  case Nil
  then show ?case by (simp add: reads_return)
next
  case (Cons e es)
  have "reads (read_entries u k (Suc (length es)))
          (enc_entry e @ concat (map enc_entry es)) (e # es)"
    unfolding read_entries.simps
    by (rule reads_bind[OF reads_entry] reads_bind_return Cons.IH)+
  then show ?case by simp
qed

lemma fopen_sel [simp]:
  "contents (fopen bs) = bs" "pos (fopen bs) = 0" "calls (fopen bs) = []"
  by (simp_all add: fopen_def)

lemma run_fseek [simp]:
  "run_state (fseek off) f = ((), f\<lparr>pos := off, calls := calls f @ [Fseek off]\<rparr>)"
  by (simp add: fseek_def)

lemma contents_fread [simp]: "contents (snd (run_state (fread b sz n) f)) = contents f"
  by (simp add: fread_def Let_def)

lemma calls_fread [simp]: "calls (snd (run_state (fread b sz n) f)) = calls f @ [Fread sz n]"
  by (simp add: fread_def Let_def)

lemma pos_fread:
  "pos (snd (run_state (fread b sz n) f)) = pos f + min (sz * n) (length (contents f) - pos f)"
  by (simp add: fread_def Let_def min.commute)

lemma resolve_symtab_reads:
  assumes "drop (unat (symoff s)) (contents f) = concat (map enc_entry es) @ r"
    and "unat (nsyms s) = length es"
  shows "fst (run_state (resolve_symtab u s) f) = s\<lparr>symbol_table := Some es\<rparr>"
proof -
  define f1 where "f1 = snd (run_state (fseek (unat (stroff s))) f)"
  define f2 where "f2 = snd (run_state (fread (map (u_string_table u) [0..<unat (strsize s)])
                       1 (unat (strsize s))) f1)"
  define f3 where "f3 = snd (run_state (fseek (unat (symoff s))) f2)"
  have "contents f1 = contents f" by (simp add: f1_def)
  then have "contents f2 = contents f" by (simp add: f2_def)
  then have f3: "pos f3 = unat (symoff s)" "contents f3 = contents f"
    by (simp_all add: f3_def)
  then have "drop (pos f3) (contents f3) = concat (map enc_entry es) @ r"
    using assms(1) by simp
  with reads_entries[of u 0 es] have "fst (run_state (read_entries u 0 (length es)) f3) = es"
    unfolding reads_def by blast
  then show ?thesis
    unfolding resolve_symtab_def run_state_bind split_def
    unfolding f1_def[symmetric] f2_def[symmetric] f3_def[symmetric] assms(2)
    by simp
qed

lemma length_sample [simp]: "length (enc_file sample_object) = 312"
  by (simp add: enc_file_def enc_header_def enc_command_def enc_segment_def enc_section_def
     enc_build_version_def enc_symtab_def enc_dysymtab_def sample_defs)

text \<open>No statement of the resolver assigns the member \<^verbatim>\<open>string_table\<close>.\<close>

lemma resolve_symtab_string_table:
  "string_table (fst (run_state (resolve_symtab u s) f)) = string_table s"
  by (simp add: resolve_symtab_def split_def)

lemma resolve_commands_no_symtab:
  "\<forall>c\<in>set cs. cmd c \<noteq> LC_SYMTAB \<Longrightarrow> run_state (resolve_commands u cs) f = (cs, f)"
  by (induction cs) simp_all

lemma resolve_commands_first:
  assumes "\<forall>c\<in>set pre. cmd c \<noteq> LC_SYMTAB" and "cmd c = LC_SYMTAB"
    and "body c = Cmd_symtab s"
  shows "run_state (resolve_commands u (pre @ c # post)) f =
     (pre @ c\<lparr>body := Cmd_symtab (fst (run_state (resolve_symtab u s) f))\<rparr> # post,
      snd (run_state (resolve_symtab u s) f))"
  using assms by (induction pre) (simp_all add: split_def)

lemma traces_return: "traces (State_Monad.return v) []"
  by (simp add: traces_def)

lemma traces_bind:
  assumes "traces m t" and "\<And>x. traces (k x) t'"
  shows "traces (State_Monad.bind m k) (t @ t')"
  using assms by (simp add: traces_def split_def)

lemma traces_bind_return:
  assumes "traces m t"
  shows "traces (State_Monad.bind m (\<lambda>x. State_Monad.return (g x))) t"
  using traces_bind[OF assms traces_return, of "\<lambda>x. g x"] by simp

lemma traces_fread: "traces (fread b sz n) [Fread sz n]"
  by (simp add: traces_def)

lemma traces_fseek: "traces (fseek off) [Fseek off]"
  by (simp add: traces_def)

lemma traces_fread_word:
  "traces (fread_u8 o1) [Fread 1 1]" "traces (fread_u16 o2) [Fread 2 1]"
  "traces (fread_u32 o3) [Fread 4 1]" "traces (fread_u64 o4) [Fread 8 1]"
  unfolding fread_u8_def fread_u16_def fread_u32_def fread_u64_def
  by (rule traces_bind_return[OF traces_fread])+

lemma traces_read_entry:
  "traces (read_entry old) [Fread 4 1, Fread 1 1, Fread 1 1, Fread 2 1, Fread 8 1]"
proof -
  have "traces (read_entry old)
     ([Fread 4 1] @ [Fread 1 1] @ [Fread 1 1] @ [Fread 2 1] @ [Fread 8 1])"
    unfolding read_entry_def
    by (rule traces_bind_return traces_bind traces_fread_word)+
  then show ?thesis by simp
qed

lemma traces_read_entries:
  "traces (read_entries u k n)
     (concat (replicate n [Fread 4 1, Fread 1 1, Fread 1 1, Fread 2 1, Fread 8 1]))"
proof (induction n arbitrary: k)
  case 0
  then show ?case by (simp add: traces_return)
next
  case (Suc n)
  have "traces (read_entries u k (Suc n))
     ([Fread 4 1, Fread 1 1, Fread 1 1, Fread 2 1, Fread 8 1] @
      concat (replicate n [Fread 4 1, Fread 1 1, Fread 1 1, Fread 2 1, Fread 8 1]))"
    unfolding read_entries.simps
    by (rule traces_bind[OF traces_read_entry] traces_bind_return Suc.IH)+
  then show ?case by simp
qed

lemma calls_resolve_symtab:
  "calls (snd (run_state (resolve_symtab u s) f)) =
     calls f @ [Fseek (unat (stroff s)), Fread 1 (unat (strsize s)), Fseek (unat (symoff s))] @
     concat (replicate (unat (nsyms s)) [Fread 4 1, Fread 1 1, Fread 1 1, Fread 2 1, Fread 8 1])"
proof -
  have "traces (resolve_symtab u s)
     ([Fseek (unat (stroff s))] @ [Fread 1 (unat (strsize s))] @ [Fseek (unat (symoff s))] @
      concat (replicate (unat (nsyms s)) [Fread 4 1, Fread 1 1, Fread 1 1, Fread 2 1, Fread 8 1]))"
    unfolding resolve_symtab_def
    by (rule traces_bind traces_fseek traces_fread traces_bind_return traces_read_entries)+
  then show ?thesis by (simp add: traces_def)
qed

text \<open>
  Claim C7. When no command of the decoded sequence carries the tag \<^verbatim>\<open>LC_SYMTAB\<close>,
  the second loop returns the sequence as it was and leaves the stream as it was: the
  cursor has not moved and no call was made on the file. The loop has no failing branch.
\<close>

theorem resolver_without_symtab_is_noop:
  "\<forall>c\<in>set cs. cmd c \<noteq> LC_SYMTAB \<Longrightarrow> run_state (resolve_commands u cs) f = (cs, f)"
  by (induction cs) simp_all

theorem resolver_without_symtab_is_noop_witness:
  "list_all (\<lambda>c. cmd c \<noteq> LC_SYMTAB) [sample_segment, sample_build_version, sample_dysymtab] \<and>
   run_state (resolve_commands zero_uninit [sample_segment, sample_build_version, sample_dysymtab])
     (fopen sample_stream) =
     ([sample_segment, sample_build_version, sample_dysymtab], fopen sample_stream)"
proof -
  have h: "\<forall>c\<in>set [sample_segment, sample_build_version, sample_dysymtab]. cmd c \<noteq> LC_SYMTAB"
    by (simp add: sample_defs LC_SYMTAB_def)
  show ?thesis
    using h resolver_without_symtab_is_noop[OF h, of zero_uninit "fopen sample_stream"] by simp
qed

text \<open>
  Claim C6. The second loop stops at the first command tagged \<^verbatim>\<open>LC_SYMTAB\<close>. The
  commands before it and all the commands after it, further symbol-table commands
  included, are returned as they were, so a later symbol-table command keeps the
  unassigned pointers the first loop left. The calls made on the file are the two
  seeks to the first command's \<^verbatim>\<open>stroff\<close> and \<^verbatim>\<open>symoff\<close>, the read of its string
  table and the five reads of each of its \<^verbatim>\<open>nsyms\<close> entries: nothing of a later
  command enters the result, the cursor or the calls.
\<close>

theorem resolver_first_symtab_only:
  assumes "\<forall>c\<in>set pre. cmd c \<noteq> LC_SYMTAB" and "cmd c = LC_SYMTAB"
    and "body c = Cmd_symtab s"
  shows "run_state (resolve_commands u (pre @ c # post)) f =
     (pre @ c\<lparr>body := Cmd_symtab (fst (run_state (resolve_symtab u s) f))\<rparr> # post,
      snd (run_state (resolve_symtab u s) f)) \<and>
    calls (snd (run_state (resolve_commands u (pre @ c # post)) f)) =
     calls f @ [Fseek (unat (stroff s)), Fread 1 (unat (strsize s)), Fseek (unat (symoff s))] @
     concat (replicate (unat (nsyms s)) [Fread 4 1, Fread 1 1, Fread 1 1, Fread 2 1, Fread 8 1])"
  using resolve_commands_first[OF assms, of u post f] calls_resolve_symtab[of u s f]
  by simp

theorem resolver_first_symtab_only_witness:
  "list_all (\<lambda>c. cmd c \<noteq> LC_SYMTAB) [sample_segment, sample_build_version] \<and>
   cmd sample_symtab = LC_SYMTAB \<and>
   body sample_symtab = Cmd_symtab \<lparr>symoff = 0x140, nsyms = 1, stroff = 0x150, strsize = 14,
     string_table = None, symbol_table = None\<rparr> \<and>
   fst (run_state (resolve_commands zero_uninit
       ([sample_segment, sample_build_version] @ sample_symtab # [second_symtab, sample_dysymtab]))
       (fopen sample_stream)) =
     [sample_segment, sample_build_version] @
     sample_symtab\<lparr>body := Cmd_symtab \<lparr>symoff = 0x140, nsyms = 1, stroff = 0x150,
       strsize = 14, string_table = None, symbol_table = Some [sample_entry]\<rparr>\<rparr> #
     [second_symtab, sample_dysymtab] \<and>
   calls (snd (run_state (resolve_commands zero_uninit
       ([sample_segment, sample_build_version] @ sample_symtab # [second_symtab, sample_dysymtab]))
       (fopen sample_stream))) =
     [Fseek 336, Fread 1 14, Fseek 320, Fread 4 1, Fread 1 1, Fread 1 1, Fread 2 1, Fread 8 1]"
proof -
  let ?s = "\<lparr>symoff = 0x140, nsyms = 1, stroff = 0x150, strsize = 14,
     string_table = None, symbol_table = None\<rparr> :: symtab_command_t"
  have 1: "\<forall>c\<in>set [sample_segment, sample_build_version]. cmd c \<noteq> LC_SYMTAB"
    by (simp add: sample_defs LC_SYMTAB_def)
  have 2: "cmd sample_symtab = LC_SYMTAB" by (simp add: sample_defs LC_SYMTAB_def)
  have 3: "body sample_symtab = Cmd_symtab ?s" by (simp add: sample_defs)
  have "drop (unat (symoff ?s)) (contents (fopen sample_stream)) =
      concat (map enc_entry [sample_entry]) @ sample_strings"
    by (simp add: sample_stream_def)
  then have 4: "fst (run_state (resolve_symtab zero_uninit ?s) (fopen sample_stream)) =
      ?s\<lparr>symbol_table := Some [sample_entry]\<rparr>"
    by (rule resolve_symtab_reads) simp
  show ?thesis
    using 1 2 3 resolver_first_symtab_only[OF 1 2 3, of zero_uninit
        "[second_symtab, sample_dysymtab]" "fopen sample_stream"]
    by (simp add: 4 split_def)
qed

lemma sample_decode:
  "fst (run_state (parse_file zero_uninit) (fopen sample_stream)) = Inr sample_decoded"
proof -
  let ?s = "\<lparr>symoff = 0x140, nsyms = 1, stroff = 0x150, strsize = 14,
     string_table = None, symbol_table = None\<rparr> :: symtab_command_t"
  let ?rest = "[0xC0, 0x03, 0x5F, 0xD6, 0xC0, 0x03, 0x5F, 0xD6] @
     enc_entry sample_entry @ sample_strings"
  obtain f2 where f2: "contents f2 = enc_file sample_object @ ?rest"
    and run: "run_state (parse_file zero_uninit) (fopen (enc_file sample_object @ ?rest)) =
       (Inr (sample_object\<lparr>commands :=
           fst (run_state (resolve_commands zero_uninit (commands sample_object)) f2)\<rparr>),
        snd (run_state (resolve_commands zero_uninit (commands sample_object)) f2))"
    using parse_file_wf[OF sample_count sample_wf, of ?rest zero_uninit] by blast
  have 1: "\<forall>c\<in>set [sample_segment, sample_build_version]. cmd c \<noteq> LC_SYMTAB"
    by (simp add: sample_defs LC_SYMTAB_def)
  have 2: "cmd sample_symtab = LC_SYMTAB" by (simp add: sample_defs LC_SYMTAB_def)
  have 3: "body sample_symtab = Cmd_symtab ?s" by (simp add: sample_defs)
  have "drop (unat (symoff ?s)) (contents f2) =
      concat (map enc_entry [sample_entry]) @ sample_strings"
    by (simp add: f2)
  then have 4: "fst (run_state (resolve_symtab zero_uninit ?s) f2) =
      ?s\<lparr>symbol_table := Some [sample_entry]\<rparr>"
    by (rule resolve_symtab_reads) simp
  have "fst (run_state (resolve_commands zero_uninit (commands sample_object)) f2) =
      [sample_segment, sample_build_version, resolved_symtab, sample_dysymtab]"
    using resolve_commands_first[OF 1 2 3, of zero_uninit "[sample_dysymtab]" f2]
    by (simp add: 4 sample_object_def resolved_symtab_def sample_symtab_def)
  then show ?thesis
    using run by (simp add: sample_stream_def sample_decoded_def sample_object_def)
qed

lemma no_strings_resolve_commands:
  "list_all no_strings cs \<Longrightarrow>
   list_all no_strings (fst (run_state (resolve_commands u cs) f))"
proof (induction cs arbitrary: f)
  case Nil
  then show ?case by simp
next
  case (Cons c cs)
  show ?case
  proof (cases "cmd c = LC_SYMTAB")
    case True
    show ?thesis
    proof (cases "body c")
      case (Cmd_symtab s)
      with Cons.prems have "string_table s = None" by (simp add: no_strings_def)
      then show ?thesis
        using True Cmd_symtab Cons.prems
        by (simp add: split_def no_strings_def resolve_symtab_string_table)
    qed (use True Cons.prems in simp_all)
  next
    case False
    then show ?thesis using Cons by (simp add: split_def)
  qed
qed

text \<open>
  Claim C3, on the sample stream: a header, a segment with one section, a build
  version, a symbol table of one entry with its 14-byte string table, and a dynamic
  symbol table. After \<^verbatim>\<open>parse_file\<close> the symbol-table command holds the entry read at
  \<^verbatim>\<open>symoff\<close>, and its \<^verbatim>\<open>string_table\<close> is still the unassigned pointer of the first
  loop: the 14 bytes read at \<^verbatim>\<open>stroff\<close> went to a local buffer that is never stored.
\<close>

theorem string_table_is_not_attached:
  "fst (run_state (parse_file zero_uninit) (fopen sample_stream)) = Inr sample_decoded \<and>
   commands sample_decoded ! 2 = \<lparr>cmd = 0x2, cmd_size = 0x18, body = Cmd_symtab
     \<lparr>symoff = 0x140, nsyms = 1, stroff = 0x150, strsize = 14, string_table = None,
      symbol_table = Some [sample_entry]\<rparr>\<rparr>"
  using sample_decode by (simp add: sample_decoded_def resolved_symtab_def)

section \<open>Counts, and the unknown tag\<close>

lemma length_read_sections:
  "length (fst (run_state (read_sections u i k n) f)) = n"
  by (induction n arbitrary: k f) (simp_all add: split_def)

lemma read_sections_0: "run_state (read_sections u i k 0) f = ([], f)"
  by simp

lemma read_segment_nsects:
  "length (sections (fst (run_state (read_segment u i) f))) =
     unat (nsects (fst (run_state (read_segment u i) f)))"
  by (simp add: read_segment_def split_def length_read_sections)

lemma parse_command_ok:
  "fst (run_state (parse_command u i) f) = Inr c \<Longrightarrow> first_pass_ok c"
  unfolding parse_command_def
  by (auto simp: split_def first_pass_ok_def read_segment_nsects read_symtab_def
      split: if_splits)

lemma parse_commands_ok:
  "fst (run_state (parse_commands u i n) f) = Inr cs \<Longrightarrow>
     length cs = n \<and> list_all first_pass_ok cs"
proof (induction n arbitrary: i f cs)
  case 0
  then show ?case by simp
next
  case (Suc n)
  obtain r f1 where r: "run_state (parse_command u i) f = (r, f1)"
    by (cases "run_state (parse_command u i) f")
  show ?case
  proof (cases r)
    case (Inl e)
    with Suc.prems r show ?thesis by simp
  next
    case (Inr c)
    obtain rs f2 where rs: "run_state (parse_commands u (Suc i) n) f1 = (rs, f2)"
      by (cases "run_state (parse_commands u (Suc i) n) f1")
    with Suc.prems r Inr obtain rest where rest: "rs = Inr rest" "cs = c # rest"
      by (cases rs) auto
    have "first_pass_ok c"
      using parse_command_ok[of u i f c] r Inr by simp
    moreover have "length rest = n \<and> list_all first_pass_ok rest"
      using Suc.IH[of "Suc i" f1 rest] rs rest by simp
    ultimately show ?thesis using rest by simp
  qed
qed




lemma decoded_ok_symtab:
  "decoded_ok c \<Longrightarrow> body c = Cmd_symtab s \<Longrightarrow> cmd c = LC_SYMTAB"
  by (simp add: decoded_ok_def unresolved_def first_pass_ok_def)





lemma string_table_never_assigned:
  assumes "fst (run_state (parse_file u) f) = Inr obj"
  shows "list_all no_strings (commands obj)"
proof -
  obtain h f1 where h: "run_state read_header f = (h, f1)"
    by (cases "run_state read_header f")
  obtain r f2 where r: "run_state (parse_commands u 0 (unat (number_of_load_commands h))) f1 = (r, f2)"
    by (cases "run_state (parse_commands u 0 (unat (number_of_load_commands h))) f1")
  show ?thesis
  proof (cases r)
    case (Inl e)
    with assms h r show ?thesis by (simp add: parse_file_def)
  next
    case (Inr cs)
    then have obj: "obj = h\<lparr>commands := fst (run_state (resolve_commands u cs) f2)\<rparr>"
      using assms h r by (simp add: parse_file_def split_def)
    have "list_all first_pass_ok cs"
      using parse_commands_ok[of u 0 "unat (number_of_load_commands h)" f1 cs] r Inr
      by simp
    moreover have "first_pass_ok c \<Longrightarrow> no_strings c" for c
      by (cases "body c") (auto simp: first_pass_ok_def no_strings_def)
    ultimately have "list_all no_strings cs" by (simp add: list_all_iff)
    then show ?thesis
      using no_strings_resolve_commands[of cs u f2] by (simp add: obj)
  qed
qed

lemma pos_fread_u32:
  "pos (snd (run_state (fread_u32 old) f)) = pos f + min 4 (length (contents f) - pos f)"
  by (simp add: fread_u32_def split_def pos_fread)

lemma contents_fread_u32 [simp]:
  "contents (snd (run_state (fread_u32 old) f)) = contents f"
  by (simp add: fread_u32_def split_def)





section \<open>Readers that only look ahead\<close>

lemma same_cursor_refl [simp]: "same_cursor f f"
  by (simp add: same_cursor_def)

lemma forward_return: "forward (State_Monad.return v)"
  by (simp add: forward_def)

lemma forwardD:
  assumes "forward m"
  shows "contents (snd (run_state m f)) = contents f"
    and "pos f \<le> pos (snd (run_state m f))"
    and "pos (snd (run_state m f)) \<le> max (pos f) (length (contents f))"
  using assms unfolding forward_def by blast+

lemma forward_agree:
  assumes "forward m" and "same_cursor f f'"
    and "\<And>j. pos f \<le> j \<Longrightarrow> j < pos (snd (run_state m f)) \<Longrightarrow>
            contents f ! j = contents f' ! j"
  shows "fst (run_state m f) = fst (run_state m f')"
    and "same_cursor (snd (run_state m f)) (snd (run_state m f'))"
  using assms unfolding forward_def by blast+

lemma forward_bind:
  assumes m: "forward m" and k: "\<And>x. forward (k x)"
  shows "forward (State_Monad.bind m k)"
  unfolding forward_def
proof (intro conjI allI impI)
  fix f :: FILE
  obtain a f1 where r: "run_state m f = (a, f1)" by (cases "run_state m f")
  have 1: "contents f1 = contents f" "pos f \<le> pos f1"
    "pos f1 \<le> max (pos f) (length (contents f))"
    using forwardD[OF m, of f] r by simp_all
  have 2: "contents (snd (run_state (k a) f1)) = contents f1"
    "pos f1 \<le> pos (snd (run_state (k a) f1))"
    "pos (snd (run_state (k a) f1)) \<le> max (pos f1) (length (contents f1))"
    using forwardD[OF k[of a], of f1] by simp_all
  show "contents (snd (run_state (State_Monad.bind m k) f)) = contents f"
    using r 1 2 by simp
  show "pos f \<le> pos (snd (run_state (State_Monad.bind m k) f))"
    using r 1 2 by simp
  show "pos (snd (run_state (State_Monad.bind m k) f)) \<le> max (pos f) (length (contents f))"
    using r 1 2 by simp
next
  fix f f' :: FILE
  assume a: "same_cursor f f' \<and>
    (\<forall>j. pos f \<le> j \<and> j < pos (snd (run_state (State_Monad.bind m k) f)) \<longrightarrow>
         contents f ! j = contents f' ! j)"
  obtain x f1 where r: "run_state m f = (x, f1)" by (cases "run_state m f")
  obtain x' f1' where r': "run_state m f' = (x', f1')" by (cases "run_state m f'")
  have 1: "contents f1 = contents f" "pos f \<le> pos f1"
    using forwardD[OF m, of f] r by simp_all
  have q1: "contents f1' = contents f'"
    using forwardD[OF m, of f'] r' by simp
  have 2: "pos f1 \<le> pos (snd (run_state (k x) f1))"
    using forwardD[OF k[of x], of f1] by simp
  have fin: "snd (run_state (State_Monad.bind m k) f) = snd (run_state (k x) f1)"
    using r by simp
  from a have sc0: "same_cursor f f'" by simp
  have ag1: "contents f ! j = contents f' ! j"
    if "pos f \<le> j" "j < pos (snd (run_state m f))" for j
    using that a 2 r fin by simp
  have "fst (run_state m f) = fst (run_state m f')"
    and "same_cursor (snd (run_state m f)) (snd (run_state m f'))"
    using forward_agree[OF m sc0 ag1] by blast+
  then have x: "x' = x" and sc: "same_cursor f1 f1'"
    using r r' by simp_all
  have ag2: "contents f1 ! j = contents f1' ! j"
    if "pos f1 \<le> j" "j < pos (snd (run_state (k x) f1))" for j
    using that a 1 q1 fin by simp
  have "fst (run_state (k x) f1) = fst (run_state (k x) f1')"
    and "same_cursor (snd (run_state (k x) f1)) (snd (run_state (k x) f1'))"
    using forward_agree[OF k sc ag2] by blast+
  then show "fst (run_state (State_Monad.bind m k) f) = fst (run_state (State_Monad.bind m k) f')"
    and "same_cursor (snd (run_state (State_Monad.bind m k) f))
          (snd (run_state (State_Monad.bind m k) f'))"
    using r r' x by simp_all
qed

lemma forward_bind_return:
  "forward m \<Longrightarrow> forward (State_Monad.bind m (\<lambda>x. State_Monad.return (g x)))"
  by (rule forward_bind) (simp_all add: forward_return)

lemma same_cursor_fread:
  "same_cursor f f' \<Longrightarrow>
   same_cursor (snd (run_state (fread b sz n) f)) (snd (run_state (fread b' sz n) f'))"
  by (simp add: same_cursor_def pos_fread)

lemma forward_fread: "forward (fread b sz n)"
  unfolding forward_def
proof (intro conjI allI impI)
  fix f :: FILE
  show "contents (snd (run_state (fread b sz n) f)) = contents f" by simp
  show "pos f \<le> pos (snd (run_state (fread b sz n) f))" by (simp add: pos_fread)
  show "pos (snd (run_state (fread b sz n) f)) \<le> max (pos f) (length (contents f))"
    by (simp add: pos_fread)
next
  fix f f' :: FILE
  assume a: "same_cursor f f' \<and>
    (\<forall>j. pos f \<le> j \<and> j < pos (snd (run_state (fread b sz n) f)) \<longrightarrow>
         contents f ! j = contents f' ! j)"
  then have sc: "same_cursor f f'" by simp
  let ?got = "take (sz * n) (drop (pos f) (contents f))"
  let ?got' = "take (sz * n) (drop (pos f') (contents f'))"
  have len: "length ?got = length ?got'"
    using sc by (simp add: same_cursor_def)
  have nth: "?got ! t = ?got' ! t" if t: "t < length ?got" for t
  proof -
    have "pos f + t < pos (snd (run_state (fread b sz n) f))"
      using t by (simp add: pos_fread min.commute)
    then have "contents f ! (pos f + t) = contents f' ! (pos f + t)"
      using a by simp
    moreover have "pos f \<le> length (contents f)" "pos f' \<le> length (contents f')"
      using t sc by (auto simp: same_cursor_def)
    ultimately show ?thesis
      using t sc by (simp add: same_cursor_def nth_drop)
  qed
  have "?got = ?got'"
  proof (rule nth_equalityI)
    show "length ?got = length ?got'" by (rule len)
    fix t assume "t < length ?got"
    then show "?got ! t = ?got' ! t" by (rule nth)
  qed
  then show "fst (run_state (fread b sz n) f) = fst (run_state (fread b sz n) f')"
    using sc by (simp add: fread_def Let_def same_cursor_def)
  show "same_cursor (snd (run_state (fread b sz n) f)) (snd (run_state (fread b sz n) f'))"
    using sc by (rule same_cursor_fread)
qed

lemma forward_fread_word:
  "forward (fread_u8 o1)" "forward (fread_u16 o2)" "forward (fread_u32 o3)"
  "forward (fread_u64 o4)" "forward (fread_name o5)"
  unfolding fread_u8_def fread_u16_def fread_u32_def fread_u64_def fread_name_def
  by (rule forward_bind_return forward_fread)+

lemmas forward_steps = forward_bind forward_return forward_fread_word

lemma forward_read_section: "forward (read_section old)"
  unfolding read_section_def by (rule forward_steps)+

lemma forward_read_sections: "forward (read_sections u i k n)"
proof (induction n arbitrary: k)
  case 0
  then show ?case by (simp add: forward_return)
next
  case (Suc n)
  show ?case
    unfolding read_sections.simps
    by (rule forward_steps forward_read_section Suc.IH)+
qed

lemma forward_read_segment: "forward (read_segment u i)"
  unfolding read_segment_def by (rule forward_steps forward_read_sections)+

lemma forward_read_dysymtab: "forward (read_dysymtab old)"
  unfolding read_dysymtab_def by (rule forward_steps)+

lemma forward_read_symtab: "forward (read_symtab old)"
  unfolding read_symtab_def by (rule forward_steps)+

lemma forward_read_build_version: "forward (read_build_version old)"
  unfolding read_build_version_def by (rule forward_steps)+

lemma forward_switch_cmd: "forward (switch_cmd u i c z)"
  unfolding switch_cmd_def
  by (simp add: forward_return forward_bind forward_read_segment forward_read_dysymtab
      forward_read_symtab forward_read_build_version)

lemma parse_command_switch:
  "parse_command u i = do {
     cmd \<leftarrow> fread_u32 (u_cmd u i);
     cmd_size \<leftarrow> fread_u32 (u_cmd_size u i);
     switch_cmd u i cmd cmd_size
   }"
  by (simp add: parse_command_def switch_cmd_def)

lemma forward_parse_command: "forward (parse_command u i)"
  unfolding parse_command_switch
  by (rule forward_steps forward_switch_cmd)+

lemma forward_parse_commands: "forward (parse_commands u i n)"
proof (induction n arbitrary: i)
  case 0
  then show ?case by (simp add: forward_return)
next
  case (Suc n)
  have "forward (case r of Inl e \<Rightarrow> State_Monad.return (Inl e)
      | Inr command \<Rightarrow> State_Monad.bind (parse_commands u (Suc i) n)
          (\<lambda>rs. State_Monad.return
             (case rs of Inl e \<Rightarrow> Inl e | Inr rest \<Rightarrow> Inr (command # rest))))" for r
    by (cases r) (simp_all add: forward_return forward_bind Suc.IH)
  then show ?case
    unfolding parse_commands.simps
    by (rule forward_bind[OF forward_parse_command])
qed

lemma forward_read_entry: "forward (read_entry old)"
  unfolding read_entry_def by (rule forward_steps)+

lemma forward_read_entries: "forward (read_entries u k n)"
proof (induction n arbitrary: k)
  case 0
  then show ?case by (simp add: forward_return)
next
  case (Suc n)
  show ?case
    unfolding read_entries.simps
    by (rule forward_steps forward_read_entry Suc.IH)+
qed

section \<open>Streams that end early\<close>

lemma word_of_bytes_replicate_0: "word_of_bytes (replicate n 0) = 0"
  by (induction n) simp_all

lemma word_of_bytes_zeros: "word_of_bytes (xs @ replicate n 0) = word_of_bytes xs"
  by (induction xs) (simp_all add: word_of_bytes_replicate_0)

lemma bytes_of_u32_0: "bytes_of_u32 0 = [0, 0, 0, 0]"
  by (simp add: bytes_of_u32_def)

lemma replicate_4_0: "replicate 4 (0 :: u8) = [0, 0, 0, 0]"
  by (simp add: eval_nat_numeral)

text \<open>
  A read into a zeroed 32-bit member when the cursor is at offset \<open>p\<close> or at the end of
  the file, whichever comes first: the bytes the file lacks count as zero.
\<close>

lemma fread_u32_zero:
  "run_state (fread_u32 0) \<lparr>contents = bs, pos = min p (length bs), calls = c\<rparr> =
     (word_of_bytes (take 4 (drop p bs)),
      \<lparr>contents = bs, pos = min (p + 4) (length bs), calls = c @ [Fread 4 1]\<rparr>)"
proof (cases "p \<le> length bs")
  case True
  let ?got = "take 4 (drop p bs)"
  have "take 4 (?got @ drop (length ?got) (replicate 4 0)) = ?got @ replicate (4 - length ?got) 0"
    by simp
  then have "word_of_bytes (take 4 (?got @ drop (length ?got) (replicate 4 0))) =
      (word_of_bytes ?got :: u32)"
    by (simp only: word_of_bytes_zeros)
  then have v: "word_of_bytes (take 4 (?got @ drop (length ?got) [0, 0, 0, 0])) =
      (word_of_bytes ?got :: u32)"
    unfolding replicate_4_0 .
  have p: "min p (length bs) = p" "p + length ?got = min (p + 4) (length bs)"
    using True by auto
  have "run_state (fread_u32 0) \<lparr>contents = bs, pos = p, calls = c\<rparr> =
     (word_of_bytes (take 4 (?got @ drop (length ?got) [0, 0, 0, 0])),
      \<lparr>contents = bs, pos = p + length ?got, calls = c @ [Fread 4 1]\<rparr>)"
    unfolding fread_u32_def fread_def Let_def bytes_of_u32_0 by simp
  then show ?thesis
    unfolding v p .
next
  case False
  then have p: "min p (length bs) = length bs" "min (p + 4) (length bs) = length bs"
    and d: "drop p bs = []"
    by simp_all
  have "run_state (fread_u32 0) \<lparr>contents = bs, pos = length bs, calls = c\<rparr> =
     (0, \<lparr>contents = bs, pos = length bs, calls = c @ [Fread 4 1]\<rparr>)"
    unfolding fread_u32_def fread_def Let_def bytes_of_u32_0 by simp
  then show ?thesis
    unfolding p d by simp
qed

lemma read_header_any:
  "run_state read_header (fopen bs) =
     (\<lparr>magic = word_of_bytes (take 4 bs),
       cpu_type = word_of_bytes (take 4 (drop 4 bs)),
       cpu_subtype = word_of_bytes (take 4 (drop 8 bs)),
       file_type = word_of_bytes (take 4 (drop 12 bs)),
       number_of_load_commands = word_of_bytes (take 4 (drop 16 bs)),
       size_of_load_commands = word_of_bytes (take 4 (drop 20 bs)),
       flags = word_of_bytes (take 4 (drop 24 bs)),
       reserved = word_of_bytes (take 4 (drop 28 bs)),
       commands = []\<rparr>,
      \<lparr>contents = bs, pos = min 32 (length bs),
       calls = [Fread 4 1, Fread 4 1, Fread 4 1, Fread 4 1,
                Fread 4 1, Fread 4 1, Fread 4 1, Fread 4 1]\<rparr>)"
  unfolding read_header_def fopen_def
  by (simp add: fread_u32_zero fread_u32_zero[of bs 0, simplified])

lemma parse_file_short:
  assumes "length bs \<le> 16"
  shows "run_state (parse_file u) (fopen bs) =
     (Inr \<lparr>magic = word_of_bytes (take 4 bs),
           cpu_type = word_of_bytes (take 4 (drop 4 bs)),
           cpu_subtype = word_of_bytes (take 4 (drop 8 bs)),
           file_type = word_of_bytes (take 4 (drop 12 bs)),
           number_of_load_commands = 0, size_of_load_commands = 0, flags = 0,
           reserved = 0, commands = []\<rparr>,
      \<lparr>contents = bs, pos = length bs,
       calls = [Fread 4 1, Fread 4 1, Fread 4 1, Fread 4 1,
                Fread 4 1, Fread 4 1, Fread 4 1, Fread 4 1]\<rparr>)"
proof -
  have "drop 16 bs = []" "drop 20 bs = []" "drop 24 bs = []" "drop 28 bs = []"
    "min 32 (length bs) = length bs"
    using assms by simp_all
  then show ?thesis
    unfolding parse_file_def by (simp add: read_header_any)
qed

text \<open>
  Claim C2, as the code has it. \<^verbatim>\<open>parse_file\<close> never looks at what \<^verbatim>\<open>fread\<close>
  returns, and its only failure is the unknown tag. A stream that ends within the
  first four words of the header, at any byte, is decoded without error: all eight
  reads of the header are made, the bytes present are stored, every byte the stream
  lacks is the zero of the static \<^verbatim>\<open>object_file\<close>, the command count is zero and the
  command sequence is empty. The cursor ends at the end of the stream.
\<close>

theorem truncated_header_is_zero_filled:
  assumes "length bs \<le> 16"
  shows "run_state (parse_file u) (fopen bs) =
     (Inr \<lparr>magic = word_of_bytes (take 4 bs),
           cpu_type = word_of_bytes (take 4 (drop 4 bs)),
           cpu_subtype = word_of_bytes (take 4 (drop 8 bs)),
           file_type = word_of_bytes (take 4 (drop 12 bs)),
           number_of_load_commands = 0, size_of_load_commands = 0, flags = 0,
           reserved = 0, commands = []\<rparr>,
      \<lparr>contents = bs, pos = length bs,
       calls = [Fread 4 1, Fread 4 1, Fread 4 1, Fread 4 1,
                Fread 4 1, Fread 4 1, Fread 4 1, Fread 4 1]\<rparr>)"
  using assms by (rule parse_file_short)

theorem truncated_header_is_zero_filled_witness:
  "length (take 10 sample_stream) \<le> 16 \<and>
   fst (run_state (parse_file zero_uninit) (fopen (take 10 sample_stream))) =
     Inr \<lparr>magic = 0xFEEDFACF, cpu_type = 0x100000C, cpu_subtype = 0, file_type = 0,
           number_of_load_commands = 0, size_of_load_commands = 0, flags = 0,
           reserved = 0, commands = []\<rparr>"
proof -
  have t: "take 10 sample_stream = [0xCF, 0xFA, 0xED, 0xFE, 0x0C, 0, 0, 1, 0, 0]"
    by (simp add: sample_stream_def enc_file_def enc_header_def sample_object_def
        bytes_of_u32_def)
  have l: "length (take 10 sample_stream) \<le> 16" by simp
  show ?thesis
    using l truncated_header_is_zero_filled[OF l, of zero_uninit]
    unfolding t by simp
qed

text \<open>
  The claim as the specification words it fails on the six bytes \<open>CF FA ED FE 0C 00\<close>,
  a stream cut inside \<^verbatim>\<open>cpu_type\<close>: the decode does not fail, it returns an object
  whose \<^verbatim>\<open>cpu_type\<close> holds the two bytes that were there and whose other fields are
  zero.
\<close>

theorem truncation_is_not_reported:
  "fst (run_state (parse_file zero_uninit) (fopen [0xCF, 0xFA, 0xED, 0xFE, 0x0C, 0x00])) =
     Inr \<lparr>magic = 0xFEEDFACF, cpu_type = 0x0C, cpu_subtype = 0, file_type = 0,
           number_of_load_commands = 0, size_of_load_commands = 0, flags = 0,
           reserved = 0, commands = []\<rparr>"
  using parse_file_short[of "[0xCF, 0xFA, 0xED, 0xFE, 0x0C, 0x00]" zero_uninit]
  by simp

section \<open>What the decode does not depend on\<close>

lemma same_cursor_fread_u32:
  "same_cursor f f' \<Longrightarrow>
   same_cursor (snd (run_state (fread_u32 a) f)) (snd (run_state (fread_u32 b) f'))"
  by (simp add: fread_u32_def split_def same_cursor_fread)

lemma switch_cmd_erase:
  "map_sum id erase_cmd_size (fst (run_state (switch_cmd u i t z) f)) =
   map_sum id erase_cmd_size (fst (run_state (switch_cmd u i t z') f))"
  "snd (run_state (switch_cmd u i t z) f) = snd (run_state (switch_cmd u i t z') f)"
  by (simp_all add: switch_cmd_def split_def erase_cmd_size_def)

lemma two_reads_pos:
  fixes f :: FILE
  assumes "f1 = snd (run_state (fread_u32 a) f)" and "f2 = snd (run_state (fread_u32 b) f1)"
  shows "pos f1 \<le> pos f + 4" and "pos f + 8 \<le> pos f2 \<or> length (contents f) \<le> pos f2"
    and "contents f2 = contents f" and "pos f \<le> pos f1" and "pos f1 \<le> pos f2"
proof -
  have 1: "pos f1 = pos f + min 4 (length (contents f) - pos f)" "contents f1 = contents f"
    using assms(1) by (simp_all add: pos_fread_u32)
  have 2: "pos f2 = pos f1 + min 4 (length (contents f) - pos f1)" "contents f2 = contents f"
    using assms(2) 1 by (simp_all add: pos_fread_u32)
  show "pos f1 \<le> pos f + 4" using 1 by simp
  show "pos f + 8 \<le> pos f2 \<or> length (contents f) \<le> pos f2" using 1 2 by auto
  show "contents f2 = contents f" using 2 by simp
  show "pos f \<le> pos f1" using 1 by simp
  show "pos f1 \<le> pos f2" using 2 by simp
qed

lemma run_parse_command:
  "run_state (parse_command u i) f =
     run_state (switch_cmd u i (fst (run_state (fread_u32 (u_cmd u i)) f))
         (fst (run_state (fread_u32 (u_cmd_size u i))
                (snd (run_state (fread_u32 (u_cmd u i)) f)))))
       (snd (run_state (fread_u32 (u_cmd_size u i))
          (snd (run_state (fread_u32 (u_cmd u i)) f))))"
  unfolding parse_command_switch by (simp add: split_def)

lemma parse_command_pos:
  "pos f + 8 \<le> pos (snd (run_state (parse_command u i) f)) \<or>
   length (contents f) \<le> pos (snd (run_state (parse_command u i) f))"
proof -
  define f1 where "f1 = snd (run_state (fread_u32 (u_cmd u i)) f)"
  define f2 where "f2 = snd (run_state (fread_u32 (u_cmd_size u i)) f1)"
  note p = two_reads_pos[OF f1_def f2_def]
  have "pos f2 \<le> pos (snd (run_state (parse_command u i) f))"
    unfolding run_parse_command f1_def[symmetric] f2_def[symmetric]
    using forwardD(2)[OF forward_switch_cmd] by simp
  with p(2) show ?thesis by auto
qed

text \<open>
  One iteration of the first loop on two files that agree on every byte the iteration
  passes over, the four bytes of the size apart.
\<close>

lemma parse_command_sizes:
  assumes sc: "same_cursor f f'"
    and ag: "\<And>j. pos f \<le> j \<Longrightarrow> j < pos (snd (run_state (parse_command u i) f)) \<Longrightarrow>
               j \<notin> {pos f + 4 ..< pos f + 8} \<Longrightarrow> contents f ! j = contents f' ! j"
  shows "map_sum id erase_cmd_size (fst (run_state (parse_command u i) f)) =
         map_sum id erase_cmd_size (fst (run_state (parse_command u i) f'))"
    and "same_cursor (snd (run_state (parse_command u i) f))
           (snd (run_state (parse_command u i) f'))"
proof -
  define t where "t = fst (run_state (fread_u32 (u_cmd u i)) f)"
  define f1 where "f1 = snd (run_state (fread_u32 (u_cmd u i)) f)"
  define z where "z = fst (run_state (fread_u32 (u_cmd_size u i)) f1)"
  define f2 where "f2 = snd (run_state (fread_u32 (u_cmd_size u i)) f1)"
  define t' where "t' = fst (run_state (fread_u32 (u_cmd u i)) f')"
  define f1' where "f1' = snd (run_state (fread_u32 (u_cmd u i)) f')"
  define z' where "z' = fst (run_state (fread_u32 (u_cmd_size u i)) f1')"
  define f2' where "f2' = snd (run_state (fread_u32 (u_cmd_size u i)) f1')"
  define f3 where "f3 = snd (run_state (switch_cmd u i t z) f2)"
  have run: "run_state (parse_command u i) f = run_state (switch_cmd u i t z) f2"
    unfolding run_parse_command t_def z_def f1_def f2_def ..
  have run': "run_state (parse_command u i) f' = run_state (switch_cmd u i t' z') f2'"
    unfolding run_parse_command t'_def z'_def f1'_def f2'_def ..
  note p = two_reads_pos[OF f1_def f2_def]
  note p' = two_reads_pos[OF f1'_def f2'_def]
  have f3: "pos f2 \<le> pos f3" "pos f3 \<le> max (pos f2) (length (contents f2))"
    unfolding f3_def using forwardD[OF forward_switch_cmd[of u i t z], of f2] by simp_all
  have end3: "pos (snd (run_state (parse_command u i) f)) = pos f3"
    unfolding run f3_def ..
  have ag1: "contents f ! j = contents f' ! j"
    if "pos f \<le> j" "j < pos (snd (run_state (fread_u32 (u_cmd u i)) f))" for j
  proof (rule ag)
    show "pos f \<le> j" by fact
    show "j < pos (snd (run_state (parse_command u i) f))"
      using that(2) p(5) f3(1) unfolding end3 f1_def[symmetric] by simp
    show "j \<notin> {pos f + 4 ..< pos f + 8}"
      using that(2) p(1) unfolding f1_def[symmetric] by simp
  qed
  have "fst (run_state (fread_u32 (u_cmd u i)) f) = fst (run_state (fread_u32 (u_cmd u i)) f')"
    and "same_cursor (snd (run_state (fread_u32 (u_cmd u i)) f))
           (snd (run_state (fread_u32 (u_cmd u i)) f'))"
    using forward_agree[OF forward_fread_word(3) sc ag1] by blast+
  then have t: "t' = t" and sc1: "same_cursor f1 f1'"
    unfolding t_def t'_def f1_def f1'_def by simp_all
  have sc2: "same_cursor f2 f2'"
    unfolding f2_def f2'_def using sc1 by (rule same_cursor_fread_u32)
  have ag2: "contents f2 ! j = contents f2' ! j"
    if "pos f2 \<le> j" "j < pos (snd (run_state (switch_cmd u i t z) f2))" for j
  proof -
    have j3: "j < pos f3" using that(2) unfolding f3_def .
    have "pos f + 8 \<le> pos f2"
    proof (rule ccontr)
      assume "\<not> pos f + 8 \<le> pos f2"
      with p(2) have "length (contents f) \<le> pos f2" by simp
      then have "pos f3 \<le> pos f2" using f3(2) p(3) by simp
      with that(1) j3 show False by simp
    qed
    then have "contents f ! j = contents f' ! j"
      using that(1) j3 p(4,5) by (intro ag) (simp_all add: end3)
    then show ?thesis using p(3) p'(3) by simp
  qed
  have sw: "fst (run_state (switch_cmd u i t z) f2) = fst (run_state (switch_cmd u i t z) f2')"
    "same_cursor (snd (run_state (switch_cmd u i t z) f2))
       (snd (run_state (switch_cmd u i t z) f2'))"
    using forward_agree[OF forward_switch_cmd sc2 ag2] by blast+
  show "map_sum id erase_cmd_size (fst (run_state (parse_command u i) f)) =
        map_sum id erase_cmd_size (fst (run_state (parse_command u i) f'))"
    unfolding run run' t using sw(1) switch_cmd_erase(1)[of u i t z f2' z'] by simp
  show "same_cursor (snd (run_state (parse_command u i) f))
         (snd (run_state (parse_command u i) f'))"
    unfolding run run' t using sw(2) switch_cmd_erase(2)[of u i t z f2' z'] by simp
qed

lemma cmd_size_offsets_ge:
  "j \<in> cmd_size_offsets u i n f \<Longrightarrow> pos f + 4 \<le> j"
proof (induction n arbitrary: i f)
  case 0
  then show ?case by simp
next
  case (Suc n)
  obtain r f1 where r: "run_state (parse_command u i) f = (r, f1)"
    by (cases "run_state (parse_command u i) f")
  have m: "pos f \<le> pos f1"
    using forwardD(2)[OF forward_parse_command[of u i], of f] r by simp
  show ?case
  proof (cases r)
    case (Inl e)
    with Suc.prems r show ?thesis by simp
  next
    case (Inr c)
    with Suc.prems r have "j \<in> {pos f + 4 ..< pos f + 8} \<or> j \<in> cmd_size_offsets u (Suc i) n f1"
      by simp
    then show ?thesis
      using Suc.IH[of "Suc i" f1] m by auto
  qed
qed

text \<open>The first loop on two files that differ only in bytes it reads as sizes.\<close>

lemma parse_commands_sizes:
  assumes "same_cursor f f'"
    and "\<And>j. pos f \<le> j \<Longrightarrow> j < length (contents f) \<Longrightarrow>
            j \<notin> cmd_size_offsets u i n f \<Longrightarrow> contents f ! j = contents f' ! j"
  shows "map_sum id (map erase_cmd_size) (fst (run_state (parse_commands u i n) f)) =
         map_sum id (map erase_cmd_size) (fst (run_state (parse_commands u i n) f')) \<and>
         same_cursor (snd (run_state (parse_commands u i n) f))
           (snd (run_state (parse_commands u i n) f'))"
  using assms
proof (induction n arbitrary: i f f')
  case 0
  then show ?case by simp
next
  case (Suc n)
  note sc = Suc.prems(1) and ag = Suc.prems(2)
  obtain r f1 where r: "run_state (parse_command u i) f = (r, f1)"
    by (cases "run_state (parse_command u i) f")
  obtain r' f1' where r': "run_state (parse_command u i) f' = (r', f1')"
    by (cases "run_state (parse_command u i) f'")
  have fw: "contents f1 = contents f" "pos f \<le> pos f1"
    "pos f1 \<le> max (pos f) (length (contents f))"
    using forwardD[OF forward_parse_command[of u i], of f] r by simp_all
  have fw': "contents f1' = contents f'"
    using forwardD(1)[OF forward_parse_command[of u i], of f'] r' by simp
  have far: "pos f + 8 \<le> pos f1 \<or> length (contents f) \<le> pos f1"
    using parse_command_pos[of f u i] r by simp
  have ag1: "contents f ! j = contents f' ! j"
    if j: "pos f \<le> j" "j < pos (snd (run_state (parse_command u i) f))"
      "j \<notin> {pos f + 4 ..< pos f + 8}" for j
  proof (rule ag)
    show "pos f \<le> j" by fact
    show "j < length (contents f)" using j(1,2) fw(3) r by simp
    have "j \<notin> cmd_size_offsets u (Suc i) n f1"
      using cmd_size_offsets_ge[of j u "Suc i" n f1] j(2) r by auto
    then show "j \<notin> cmd_size_offsets u i (Suc n) f"
      using j(3) r by (simp split: sum.splits)
  qed
  have "map_sum id erase_cmd_size (fst (run_state (parse_command u i) f)) =
         map_sum id erase_cmd_size (fst (run_state (parse_command u i) f'))"
    by (rule parse_command_sizes(1)[OF sc]) (rule ag1)
  moreover have "same_cursor (snd (run_state (parse_command u i) f))
           (snd (run_state (parse_command u i) f'))"
    by (rule parse_command_sizes(2)[OF sc]) (rule ag1)
  ultimately have eq: "map_sum id erase_cmd_size r = map_sum id erase_cmd_size r'"
    and sc1: "same_cursor f1 f1'"
    using r r' by simp_all
  show ?case
  proof (cases r)
    case (Inl e)
    with eq have "r' = Inl e" by (cases r') simp_all
    with Inl r r' sc1 show ?thesis by simp
  next
    case (Inr c)
    with eq obtain c' where c': "r' = Inr c'" "erase_cmd_size c = erase_cmd_size c'"
      by (cases r') simp_all
    have ag2: "contents f1 ! j = contents f1' ! j"
      if j: "pos f1 \<le> j" "j < length (contents f1)" "j \<notin> cmd_size_offsets u (Suc i) n f1"
      for j
    proof -
      have "pos f + 8 \<le> j" using far j(1,2) fw(1) by auto
      moreover have "j \<notin> cmd_size_offsets u i (Suc n) f"
        using calculation j(3) r Inr by simp
      ultimately have "contents f ! j = contents f' ! j"
        using j(2) fw(1) by (intro ag) simp_all
      then show ?thesis using fw(1) fw' by simp
    qed
    obtain rs f2 where rs: "run_state (parse_commands u (Suc i) n) f1 = (rs, f2)"
      by (cases "run_state (parse_commands u (Suc i) n) f1")
    obtain rs' f2' where rs': "run_state (parse_commands u (Suc i) n) f1' = (rs', f2')"
      by (cases "run_state (parse_commands u (Suc i) n) f1'")
    have "map_sum id (map erase_cmd_size) rs = map_sum id (map erase_cmd_size) rs'"
      and "same_cursor f2 f2'"
      using Suc.IH[OF sc1 ag2, of "Suc i"] rs rs' by (simp_all add: id_def)
    then show ?thesis
      using r r' Inr c' rs rs' by (cases rs; cases rs') simp_all
  qed
qed

subsection \<open>The resolver on two files\<close>

lemma at_most_return: "at_most (State_Monad.return v) 0"
  by (simp add: at_most_def)

lemma at_most_bind:
  assumes "at_most m b" and "\<And>x. at_most (k x) b'"
  shows "at_most (State_Monad.bind m k) (b + b')"
  unfolding at_most_def
proof
  fix f :: FILE
  obtain a f1 where r: "run_state m f = (a, f1)" by (cases "run_state m f")
  have "pos f1 \<le> pos f + b" using assms(1) r unfolding at_most_def by (metis snd_conv)
  moreover have "pos (snd (run_state (k a) f1)) \<le> pos f1 + b'"
    using assms(2) unfolding at_most_def by blast
  ultimately show "pos (snd (run_state (State_Monad.bind m k) f)) \<le> pos f + (b + b')"
    using r by simp
qed

lemma at_most_bind_return:
  "at_most m b \<Longrightarrow> at_most (State_Monad.bind m (\<lambda>x. State_Monad.return (g x))) b"
  using at_most_bind[OF _ at_most_return, of m b "\<lambda>x. g x"] by simp

lemma at_most_fread: "at_most (fread buf sz n) (sz * n)"
  by (simp add: at_most_def pos_fread)

lemma at_most_fread_word:
  "at_most (fread_u8 o1) 1" "at_most (fread_u16 o2) 2" "at_most (fread_u32 o3) 4"
  "at_most (fread_u64 o4) 8"
  unfolding fread_u8_def fread_u16_def fread_u32_def fread_u64_def
  using at_most_bind_return[OF at_most_fread[of _ 1 1]]
    at_most_bind_return[OF at_most_fread[of _ 2 1]]
    at_most_bind_return[OF at_most_fread[of _ 4 1]]
    at_most_bind_return[OF at_most_fread[of _ 8 1]]
  by simp_all

lemma at_most_read_entry: "at_most (read_entry old) 16"
proof -
  have "at_most (read_entry old) (4 + (1 + (1 + (2 + 8))))"
    unfolding read_entry_def
    by (rule at_most_bind at_most_bind_return at_most_fread_word)+
  then show ?thesis by simp
qed

lemma at_most_read_entries: "at_most (read_entries u k n) (16 * n)"
proof (induction n arbitrary: k)
  case 0
  then show ?case by (simp add: at_most_return)
next
  case (Suc n)
  have "at_most (read_entries u k (Suc n)) (16 + 16 * n)"
    unfolding read_entries.simps
    by (rule at_most_bind[OF at_most_read_entry] at_most_bind_return Suc.IH)+
  then show ?case by simp
qed

lemma resolve_symtab_agree:
  assumes sc: "same_cursor f f'"
    and ag: "\<And>j. unat (symoff s) \<le> j \<Longrightarrow> j < unat (symoff s) + 16 * unat (nsyms s) \<Longrightarrow>
               j < length (contents f) \<Longrightarrow> contents f ! j = contents f' ! j"
  shows "fst (run_state (resolve_symtab u s) f) = fst (run_state (resolve_symtab u s) f')"
    and "same_cursor (snd (run_state (resolve_symtab u s) f))
           (snd (run_state (resolve_symtab u s) f'))"
proof -
  let ?buf = "map (u_string_table u) [0..<unat (strsize s)]"
  define g where "g h = snd (run_state (fseek (unat (symoff s)))
      (snd (run_state (fread ?buf 1 (unat (strsize s)))
        (snd (run_state (fseek (unat (stroff s))) h)))))" for h :: FILE
  have run: "run_state (resolve_symtab u s) h =
      (s\<lparr>symbol_table := Some (fst (run_state (read_entries u 0 (unat (nsyms s))) (g h)))\<rparr>,
       snd (run_state (read_entries u 0 (unat (nsyms s))) (g h)))" for h
    unfolding resolve_symtab_def g_def run_state_bind split_def by simp
  have g: "pos (g h) = unat (symoff s)" "contents (g h) = contents h"
    "calls (g h) = calls h @ [Fseek (unat (stroff s)), Fread 1 (unat (strsize s)),
       Fseek (unat (symoff s))]" for h
    unfolding g_def by simp_all
  have sc3: "same_cursor (g f) (g f')"
    using sc by (simp add: same_cursor_def g)
  let ?m = "read_entries u 0 (unat (nsyms s))"
  have ag3: "contents (g f) ! j = contents (g f') ! j"
    if j: "pos (g f) \<le> j" "j < pos (snd (run_state ?m (g f)))" for j
  proof -
    have "pos (snd (run_state ?m (g f))) \<le> pos (g f) + 16 * unat (nsyms s)"
      using at_most_read_entries[of u 0 "unat (nsyms s)"] unfolding at_most_def by blast
    moreover have "pos (snd (run_state ?m (g f))) \<le> max (pos (g f)) (length (contents (g f)))"
      using forwardD(3)[OF forward_read_entries] by blast
    ultimately have "j < unat (symoff s) + 16 * unat (nsyms s)" "j < length (contents f)"
      using j by (simp_all add: g)
    then show ?thesis using j(1) by (simp add: g ag)
  qed
  note * = forward_agree[OF forward_read_entries sc3 ag3]
  show "fst (run_state (resolve_symtab u s) f) = fst (run_state (resolve_symtab u s) f')"
    and "same_cursor (snd (run_state (resolve_symtab u s) f))
           (snd (run_state (resolve_symtab u s) f'))"
    unfolding run using * by simp_all
qed

lemma resolve_commands_agree:
  assumes "same_cursor f f'"
    and "\<And>j. j \<in> symbol_range cs \<Longrightarrow> j < length (contents f) \<Longrightarrow>
            contents f ! j = contents f' ! j"
  shows "fst (run_state (resolve_commands u cs) f) = fst (run_state (resolve_commands u cs) f') \<and>
         same_cursor (snd (run_state (resolve_commands u cs) f))
           (snd (run_state (resolve_commands u cs) f'))"
  using assms
proof (induction cs)
  case Nil
  then show ?case by simp
next
  case (Cons c cs)
  show ?case
  proof (cases "cmd c = LC_SYMTAB")
    case True
    show ?thesis
    proof (cases "body c")
      case (Cmd_symtab s)
      have r: "symbol_range (c # cs) = {unat (symoff s) ..< unat (symoff s) + 16 * unat (nsyms s)}"
        using True Cmd_symtab by (simp add: symbol_range_def)
      have "fst (run_state (resolve_symtab u s) f) = fst (run_state (resolve_symtab u s) f')"
        and "same_cursor (snd (run_state (resolve_symtab u s) f))
           (snd (run_state (resolve_symtab u s) f'))"
        using resolve_symtab_agree[OF Cons.prems(1), of s u] Cons.prems(2) unfolding r
        by simp_all
      then show ?thesis
        using True Cmd_symtab by (simp add: split_def)
    qed (use True Cons.prems(1) in simp_all)
  next
    case False
    then have "symbol_range (c # cs) = symbol_range cs"
      by (simp add: symbol_range_def)
    then show ?thesis
      using Cons False by (simp add: split_def)
  qed
qed

lemma resolve_commands_erase:
  "run_state (resolve_commands u (map erase_cmd_size cs)) f =
     (map erase_cmd_size (fst (run_state (resolve_commands u cs) f)),
      snd (run_state (resolve_commands u cs) f))"
proof (induction cs)
  case Nil
  then show ?case by simp
next
  case (Cons c cs)
  show ?case
  proof (cases "cmd c = LC_SYMTAB")
    case True
    then show ?thesis
      by (cases "body c") (simp_all add: erase_cmd_size_def split_def)
  next
    case False
    then show ?thesis
      using Cons by (simp add: erase_cmd_size_def split_def)
  qed
qed

lemma symbol_range_erase: "symbol_range (map erase_cmd_size cs) = symbol_range cs"
proof -
  have "first_symtab (map erase_cmd_size cs) = first_symtab cs"
    by (induction cs) (simp_all add: erase_cmd_size_def)
  then show ?thesis by (simp add: symbol_range_def)
qed

lemma forward_read_header: "forward read_header"
  unfolding read_header_def by (rule forward_steps)+

subsection \<open>The whole decode on two streams\<close>

lemma run_parse_file:
  "run_state (parse_file u) f =
     (case run_state read_header f of (h, f1) \<Rightarrow>
        (case run_state (parse_commands u 0 (unat (number_of_load_commands h))) f1 of
           (Inl e, f2) \<Rightarrow> (Inl e, f2)
         | (Inr cs, f2) \<Rightarrow>
             (Inr (h\<lparr>commands := fst (run_state (resolve_commands u cs) f2)\<rparr>),
              snd (run_state (resolve_commands u cs) f2))))"
  by (simp add: parse_file_def split_def split: sum.splits)

lemma take_drop_eqI:
  assumes "length xs = length ys"
    and "\<And>j. k \<le> j \<Longrightarrow> j < k + n \<Longrightarrow> j < length xs \<Longrightarrow> xs ! j = ys ! j"
  shows "take n (drop k xs) = take n (drop k ys)"
proof (rule nth_equalityI)
  show "length (take n (drop k xs)) = length (take n (drop k ys))"
    using assms(1) by simp
  fix t assume "t < length (take n (drop k xs))"
  then have t: "t < n" "k + t < length xs" by auto
  then have "xs ! (k + t) = ys ! (k + t)" by (intro assms(2)) simp_all
  then show "take n (drop k xs) ! t = take n (drop k ys) ! t"
    using t assms(1) by simp
qed

lemma decode_sizes:
  assumes len: "length bs' = length bs"
    and diff: "\<forall>j<length bs. bs' ! j \<noteq> bs ! j \<longrightarrow>
       j \<in> cmd_size_fields u bs \<and> j \<notin> symbol_entry_bytes u bs"
  shows "map_sum id erase_cmd_sizes (fst (run_state (parse_file u) (fopen bs'))) =
         map_sum id erase_cmd_sizes (fst (run_state (parse_file u) (fopen bs)))"
    and "same_cursor (snd (run_state (parse_file u) (fopen bs')))
           (snd (run_state (parse_file u) (fopen bs)))"
proof -
  obtain h f1 where h: "run_state read_header (fopen bs) = (h, f1)"
    by (cases "run_state read_header (fopen bs)")
  obtain h' f1' where h': "run_state read_header (fopen bs') = (h', f1')"
    by (cases "run_state read_header (fopen bs')")
  let ?n = "unat (number_of_load_commands h)"
  have S: "cmd_size_fields u bs = cmd_size_offsets u 0 ?n f1"
    by (simp add: cmd_size_fields_def h)
  have f1: "contents f1 = bs" "pos f1 \<le> length bs"
    using forwardD[OF forward_read_header, of "fopen bs"] h by simp_all
  have f1': "contents f1' = bs'"
    using forwardD(1)[OF forward_read_header, of "fopen bs'"] h' by simp
  have sc0: "same_cursor (fopen bs) (fopen bs')"
    using len by (simp add: same_cursor_def)
  have ag0: "contents (fopen bs) ! j = contents (fopen bs') ! j"
    if "pos (fopen bs) \<le> j" "j < pos (snd (run_state read_header (fopen bs)))" for j
  proof -
    have j: "j < pos f1" using that(2) h by simp
    then have "j \<notin> cmd_size_fields u bs"
      unfolding S using cmd_size_offsets_ge[of j u 0 ?n f1] by auto
    moreover have "j < length bs" using j f1(2) by simp
    ultimately have "bs' ! j = bs ! j" using diff by blast
    then show ?thesis by simp
  qed
  have "fst (run_state read_header (fopen bs)) = fst (run_state read_header (fopen bs'))"
    and "same_cursor (snd (run_state read_header (fopen bs)))
          (snd (run_state read_header (fopen bs')))"
    using forward_agree[OF forward_read_header sc0 ag0] by blast+
  then have hh: "h' = h" and sc1: "same_cursor f1 f1'"
    using h h' by simp_all
  obtain r f2 where r: "run_state (parse_commands u 0 ?n) f1 = (r, f2)"
    by (cases "run_state (parse_commands u 0 ?n) f1")
  obtain r' f2' where r': "run_state (parse_commands u 0 ?n) f1' = (r', f2')"
    by (cases "run_state (parse_commands u 0 ?n) f1'")
  have f2: "contents f2 = bs"
    using forwardD(1)[OF forward_parse_commands[of u 0 ?n], of f1] r f1 by simp
  have f2': "contents f2' = bs'"
    using forwardD(1)[OF forward_parse_commands[of u 0 ?n], of f1'] r' f1' by simp
  have ag1: "contents f1 ! j = contents f1' ! j"
    if "pos f1 \<le> j" "j < length (contents f1)" "j \<notin> cmd_size_offsets u 0 ?n f1" for j
    using that diff f1 f1' unfolding S by auto
  have "map_sum id (map erase_cmd_size) (fst (run_state (parse_commands u 0 ?n) f1)) =
        map_sum id (map erase_cmd_size) (fst (run_state (parse_commands u 0 ?n) f1')) \<and>
        same_cursor (snd (run_state (parse_commands u 0 ?n) f1))
          (snd (run_state (parse_commands u 0 ?n) f1'))"
    by (rule parse_commands_sizes[OF sc1]) (rule ag1)
  then have eq: "map_sum id (map erase_cmd_size) r = map_sum id (map erase_cmd_size) r'"
    and sc2: "same_cursor f2 f2'"
    using r r' by simp_all
  have "map_sum id erase_cmd_sizes (fst (run_state (parse_file u) (fopen bs'))) =
         map_sum id erase_cmd_sizes (fst (run_state (parse_file u) (fopen bs))) \<and>
        same_cursor (snd (run_state (parse_file u) (fopen bs')))
           (snd (run_state (parse_file u) (fopen bs)))"
  proof (cases r)
    case (Inl e)
    with eq have "r' = Inl e" by (cases r') simp_all
    with Inl h h' hh r r' sc2
    show ?thesis
      by (simp add: run_parse_file same_cursor_def)
  next
    case (Inr cs)
    with eq obtain cs' where cs': "r' = Inr cs'"
      "map erase_cmd_size cs = map erase_cmd_size cs'"
      by (cases r') simp_all
    let ?E = "map erase_cmd_size cs"
    have "fst (run_state (first_pass u) (fopen bs)) = Inr cs"
      using h r Inr by (simp add: first_pass_def)
    then have R: "symbol_entry_bytes u bs = symbol_range cs"
      by (simp add: symbol_entry_bytes_def)
    have ag2: "contents f2 ! j = contents f2' ! j"
      if "j \<in> symbol_range ?E" "j < length (contents f2)" for j
      using that diff f2 f2' unfolding symbol_range_erase R by auto
    have "fst (run_state (resolve_commands u ?E) f2) = fst (run_state (resolve_commands u ?E) f2') \<and>
         same_cursor (snd (run_state (resolve_commands u ?E) f2))
           (snd (run_state (resolve_commands u ?E) f2'))"
      by (rule resolve_commands_agree[OF sc2]) (rule ag2)
    then have res: "map erase_cmd_size (fst (run_state (resolve_commands u cs) f2)) =
        map erase_cmd_size (fst (run_state (resolve_commands u cs') f2'))"
      "same_cursor (snd (run_state (resolve_commands u cs) f2))
        (snd (run_state (resolve_commands u cs') f2'))"
      using resolve_commands_erase[of u cs f2] resolve_commands_erase[of u cs' f2'] cs'(2)
      by simp_all
    from Inr cs' h h' hh r r' res
    show ?thesis
      by (simp add: run_parse_file erase_cmd_sizes_def same_cursor_def)
  qed
  then show "map_sum id erase_cmd_sizes (fst (run_state (parse_file u) (fopen bs'))) =
         map_sum id erase_cmd_sizes (fst (run_state (parse_file u) (fopen bs)))"
    and "same_cursor (snd (run_state (parse_file u) (fopen bs')))
           (snd (run_state (parse_file u) (fopen bs)))"
    by simp_all
qed

lemma decode_header_fields:
  assumes len: "length bs' = length bs"
    and diff: "\<forall>j<length bs. bs' ! j \<noteq> bs ! j \<longrightarrow>
       (j < 16 \<or> 20 \<le> j \<and> j < 32) \<and> j \<notin> symbol_entry_bytes u bs"
  shows "map_sum id erase_header_fields (fst (run_state (parse_file u) (fopen bs'))) =
         map_sum id erase_header_fields (fst (run_state (parse_file u) (fopen bs)))"
    and "same_cursor (snd (run_state (parse_file u) (fopen bs')))
           (snd (run_state (parse_file u) (fopen bs)))"
proof -
  obtain h f1 where h: "run_state read_header (fopen bs) = (h, f1)"
    by (cases "run_state read_header (fopen bs)")
  obtain h' f1' where h': "run_state read_header (fopen bs') = (h', f1')"
    by (cases "run_state read_header (fopen bs')")
  have "take 4 (drop 16 bs) = take 4 (drop 16 bs')"
    using len diff by (intro take_drop_eqI) auto
  moreover have "number_of_load_commands (fst (run_state read_header (fopen xs))) =
      word_of_bytes (take 4 (drop 16 xs))" for xs
    by (simp add: read_header_any)
  from this[of bs] this[of bs']
  have "number_of_load_commands h = word_of_bytes (take 4 (drop 16 bs))"
    "number_of_load_commands h' = word_of_bytes (take 4 (drop 16 bs'))"
    using h h' by simp_all
  ultimately have n: "number_of_load_commands h' = number_of_load_commands h"
    by simp
  let ?n = "unat (number_of_load_commands h)"
  have f1: "contents f1 = bs" "pos f1 = min 32 (length bs)"
    and f1': "contents f1' = bs'"
    and sc1: "same_cursor f1 f1'"
    using h h' len by (auto simp: read_header_any same_cursor_def)
  obtain r f2 where r: "run_state (parse_commands u 0 ?n) f1 = (r, f2)"
    by (cases "run_state (parse_commands u 0 ?n) f1")
  obtain r' f2' where r': "run_state (parse_commands u 0 ?n) f1' = (r', f2')"
    by (cases "run_state (parse_commands u 0 ?n) f1'")
  note fw = forwardD[OF forward_parse_commands[of u 0 ?n], of f1]
  have f2: "contents f2 = bs" "pos f2 \<le> max (pos f1) (length bs)"
    using fw r f1 by simp_all
  have f2': "contents f2' = bs'"
    using forwardD(1)[OF forward_parse_commands[of u 0 ?n], of f1'] r' f1' by simp
  have ag1: "contents f1 ! j = contents f1' ! j"
    if "pos f1 \<le> j" "j < pos (snd (run_state (parse_commands u 0 ?n) f1))" for j
  proof -
    have "j < length bs" "32 \<le> j" using that f1 f2 r by auto
    then show ?thesis using diff f1 f1' by auto
  qed
  have "fst (run_state (parse_commands u 0 ?n) f1) = fst (run_state (parse_commands u 0 ?n) f1')"
    and "same_cursor (snd (run_state (parse_commands u 0 ?n) f1))
          (snd (run_state (parse_commands u 0 ?n) f1'))"
    using forward_agree[OF forward_parse_commands sc1 ag1] by blast+
  then have eq: "r' = r" and sc2: "same_cursor f2 f2'"
    using r r' by simp_all
  have E: "erase_header_fields (h'\<lparr>commands := x\<rparr>) = erase_header_fields (h\<lparr>commands := x\<rparr>)"
    for x
    using n by (cases h; cases h') (simp add: erase_header_fields_def)
  have "map_sum id erase_header_fields (fst (run_state (parse_file u) (fopen bs'))) =
         map_sum id erase_header_fields (fst (run_state (parse_file u) (fopen bs))) \<and>
        same_cursor (snd (run_state (parse_file u) (fopen bs')))
           (snd (run_state (parse_file u) (fopen bs)))"
  proof (cases r)
    case (Inl e)
    with h h' n r r' eq sc2
    show ?thesis
      by (simp add: run_parse_file same_cursor_def)
  next
    case (Inr cs)
    have "fst (run_state (first_pass u) (fopen bs)) = Inr cs"
      using h r Inr by (simp add: first_pass_def)
    then have R: "symbol_entry_bytes u bs = symbol_range cs"
      by (simp add: symbol_entry_bytes_def)
    have ag2: "contents f2 ! j = contents f2' ! j"
      if "j \<in> symbol_range cs" "j < length (contents f2)" for j
      using that diff f2 f2' unfolding R by auto
    have "fst (run_state (resolve_commands u cs) f2) = fst (run_state (resolve_commands u cs) f2') \<and>
         same_cursor (snd (run_state (resolve_commands u cs) f2))
           (snd (run_state (resolve_commands u cs) f2'))"
      by (rule resolve_commands_agree[OF sc2]) (rule ag2)
    with Inr h h' n r r' eq E
    show ?thesis
      by (simp add: run_parse_file same_cursor_def)
  qed
  then show "map_sum id erase_header_fields (fst (run_state (parse_file u) (fopen bs'))) =
         map_sum id erase_header_fields (fst (run_state (parse_file u) (fopen bs)))"
    and "same_cursor (snd (run_state (parse_file u) (fopen bs')))
           (snd (run_state (parse_file u) (fopen bs)))"
    by simp_all
qed

subsection \<open>The streams with an overlapping symbol table\<close>

lemma decode_single_symtab:
  assumes h: "commands h = [c]" "number_of_load_commands h = 1"
    and c: "cmd c = LC_SYMTAB" "body c = Cmd_symtab s"
    and s: "string_table s = None" "symbol_table s = None" "unat (nsyms s) = length es"
    and d: "drop (unat (symoff s)) (enc_file h) = concat (map enc_entry es) @ r"
  shows "fst (run_state (parse_file u) (fopen (enc_file h))) =
     Inr (h\<lparr>commands := [c\<lparr>body := Cmd_symtab (s\<lparr>symbol_table := Some es\<rparr>)\<rparr>]\<rparr>)"
proof -
  have n: "unat (number_of_load_commands h) = length (commands h)"
    using h by simp
  have wf: "list_all wf_command (commands h)"
    using h c s by (simp add: wf_command_def)
  obtain f2 where f2: "contents f2 = enc_file h @ []"
    and run: "run_state (parse_file u) (fopen (enc_file h @ [])) =
       (Inr (h\<lparr>commands := fst (run_state (resolve_commands u (commands h)) f2)\<rparr>),
        snd (run_state (resolve_commands u (commands h)) f2))"
    using parse_file_wf[OF n wf, of "[]" u] by blast
  have "fst (run_state (resolve_symtab u s) f2) = s\<lparr>symbol_table := Some es\<rparr>"
    using resolve_symtab_reads[of s f2 es r u] d f2 s(3) by simp
  then have "fst (run_state (resolve_commands u (commands h)) f2) =
      [c\<lparr>body := Cmd_symtab (s\<lparr>symbol_table := Some es\<rparr>)\<rparr>]"
    using h c by (simp add: split_def)
  then show ?thesis using run by simp
qed

lemma size_overlap_stream_enc: "size_overlap_stream = enc_file (size_overlap_object 0x18)"
  by (simp add: size_overlap_stream_def size_overlap_object_def enc_file_def enc_header_def
      enc_command_def enc_symtab_def bytes_of_u32_def)

lemma size_overlap_stream_enc':
  "size_overlap_stream[36 := 0x09] = enc_file (size_overlap_object 0x09)"
  by (simp add: size_overlap_stream_def size_overlap_object_def enc_file_def enc_header_def
      enc_command_def enc_symtab_def bytes_of_u32_def list_update_code)

lemma magic_overlap_stream_enc:
  "magic_overlap_stream = enc_file (magic_overlap_object 0xFEEDFACF)"
  by (simp add: magic_overlap_stream_def magic_overlap_object_def enc_file_def enc_header_def
      enc_command_def enc_symtab_def bytes_of_u32_def)

lemma magic_overlap_stream_enc':
  "magic_overlap_stream[0 := 0xCE] = enc_file (magic_overlap_object 0xFEEDFACE)"
  by (simp add: magic_overlap_stream_def magic_overlap_object_def enc_file_def enc_header_def
      enc_command_def enc_symtab_def bytes_of_u32_def)

lemma decode_size_overlap:
  "fst (run_state (parse_file u) (fopen (size_overlap_stream))) =
     Inr ((size_overlap_object 0x18)\<lparr>commands := [\<lparr>cmd = 0x2, cmd_size = 0x18, body = Cmd_symtab
       \<lparr>symoff = 0x20, nsyms = 1, stroff = 0x38, strsize = 0, string_table = None,
        symbol_table = Some [\<lparr>n_strx = 2, n_type = 0x18, n_sect = 0, n_desc = 0, n_value = 0x100000020\<rparr>]\<rparr>\<rparr>]\<rparr>)"
proof -
  let ?s = "\<lparr>symoff = 0x20, nsyms = 1, stroff = 0x38, strsize = 0, string_table = None,
        symbol_table = None\<rparr> :: symtab_command_t"
  let ?c = "\<lparr>cmd = 0x2, cmd_size = 0x18, body = Cmd_symtab ?s\<rparr>"
  let ?h = "size_overlap_object 0x18"
  have h: "commands ?h = [?c]" "number_of_load_commands ?h = 1"
    by (simp_all add: size_overlap_object_def magic_overlap_object_def)
  have c: "cmd ?c = LC_SYMTAB" "body ?c = Cmd_symtab ?s"
    by (simp_all add: LC_SYMTAB_def)
  have s: "string_table ?s = None" "symbol_table ?s = None"
    "unat (nsyms ?s) = length [\<lparr>n_strx = 2, n_type = 0x18, n_sect = 0, n_desc = 0, n_value = 0x100000020\<rparr>]"
    by simp_all
  have d: "drop (unat (symoff ?s)) (enc_file ?h) =
      concat (map enc_entry [\<lparr>n_strx = 2, n_type = 0x18, n_sect = 0, n_desc = 0, n_value = 0x100000020\<rparr>]) @ [0x38, 0, 0, 0, 0, 0, 0, 0]"
    by (simp add: size_overlap_object_def magic_overlap_object_def enc_file_def
        enc_header_def enc_command_def enc_symtab_def enc_entry_def bytes_of_u32_def
        bytes_of_u8_def bytes_of_u16_def bytes_of_u64_def)
  show ?thesis
    unfolding size_overlap_stream_enc
    using decode_single_symtab[OF h c s d, of u] by simp
qed

lemma decode_size_overlap':
  "fst (run_state (parse_file u) (fopen (size_overlap_stream[36 := 0x09]))) =
     Inr ((size_overlap_object 0x09)\<lparr>commands := [\<lparr>cmd = 0x2, cmd_size = 0x09, body = Cmd_symtab
       \<lparr>symoff = 0x20, nsyms = 1, stroff = 0x38, strsize = 0, string_table = None,
        symbol_table = Some [\<lparr>n_strx = 2, n_type = 0x09, n_sect = 0, n_desc = 0, n_value = 0x100000020\<rparr>]\<rparr>\<rparr>]\<rparr>)"
proof -
  let ?s = "\<lparr>symoff = 0x20, nsyms = 1, stroff = 0x38, strsize = 0, string_table = None,
        symbol_table = None\<rparr> :: symtab_command_t"
  let ?c = "\<lparr>cmd = 0x2, cmd_size = 0x09, body = Cmd_symtab ?s\<rparr>"
  let ?h = "size_overlap_object 0x09"
  have h: "commands ?h = [?c]" "number_of_load_commands ?h = 1"
    by (simp_all add: size_overlap_object_def magic_overlap_object_def)
  have c: "cmd ?c = LC_SYMTAB" "body ?c = Cmd_symtab ?s"
    by (simp_all add: LC_SYMTAB_def)
  have s: "string_table ?s = None" "symbol_table ?s = None"
    "unat (nsyms ?s) = length [\<lparr>n_strx = 2, n_type = 0x09, n_sect = 0, n_desc = 0, n_value = 0x100000020\<rparr>]"
    by simp_all
  have d: "drop (unat (symoff ?s)) (enc_file ?h) =
      concat (map enc_entry [\<lparr>n_strx = 2, n_type = 0x09, n_sect = 0, n_desc = 0, n_value = 0x100000020\<rparr>]) @ [0x38, 0, 0, 0, 0, 0, 0, 0]"
    by (simp add: size_overlap_object_def magic_overlap_object_def enc_file_def
        enc_header_def enc_command_def enc_symtab_def enc_entry_def bytes_of_u32_def
        bytes_of_u8_def bytes_of_u16_def bytes_of_u64_def)
  show ?thesis
    unfolding size_overlap_stream_enc'
    using decode_single_symtab[OF h c s d, of u] by simp
qed

lemma decode_magic_overlap:
  "fst (run_state (parse_file u) (fopen (magic_overlap_stream))) =
     Inr ((magic_overlap_object 0xFEEDFACF)\<lparr>commands := [\<lparr>cmd = 0x2, cmd_size = 0x18, body = Cmd_symtab
       \<lparr>symoff = 0, nsyms = 1, stroff = 0x38, strsize = 0, string_table = None,
        symbol_table = Some [\<lparr>n_strx = 0xFEEDFACF, n_type = 0x0C, n_sect = 0, n_desc = 0x100, n_value = 0x100000000\<rparr>]\<rparr>\<rparr>]\<rparr>)"
proof -
  let ?s = "\<lparr>symoff = 0, nsyms = 1, stroff = 0x38, strsize = 0, string_table = None,
        symbol_table = None\<rparr> :: symtab_command_t"
  let ?c = "\<lparr>cmd = 0x2, cmd_size = 0x18, body = Cmd_symtab ?s\<rparr>"
  let ?h = "magic_overlap_object 0xFEEDFACF"
  have h: "commands ?h = [?c]" "number_of_load_commands ?h = 1"
    by (simp_all add: size_overlap_object_def magic_overlap_object_def)
  have c: "cmd ?c = LC_SYMTAB" "body ?c = Cmd_symtab ?s"
    by (simp_all add: LC_SYMTAB_def)
  have s: "string_table ?s = None" "symbol_table ?s = None"
    "unat (nsyms ?s) = length [\<lparr>n_strx = 0xFEEDFACF, n_type = 0x0C, n_sect = 0, n_desc = 0x100, n_value = 0x100000000\<rparr>]"
    by simp_all
  have d: "drop (unat (symoff ?s)) (enc_file ?h) =
      concat (map enc_entry [\<lparr>n_strx = 0xFEEDFACF, n_type = 0x0C, n_sect = 0, n_desc = 0x100, n_value = 0x100000000\<rparr>]) @ [1, 0, 0, 0, 0x18, 0, 0, 0, 0, 0, 0, 0, 0, 0, 0, 0, 2, 0, 0, 0, 0x18, 0, 0, 0, 0, 0, 0, 0, 1, 0, 0, 0, 0x38, 0, 0, 0, 0, 0, 0, 0]"
    by (simp add: size_overlap_object_def magic_overlap_object_def enc_file_def
        enc_header_def enc_command_def enc_symtab_def enc_entry_def bytes_of_u32_def
        bytes_of_u8_def bytes_of_u16_def bytes_of_u64_def)
  show ?thesis
    unfolding magic_overlap_stream_enc
    using decode_single_symtab[OF h c s d, of u] by simp
qed

lemma decode_magic_overlap':
  "fst (run_state (parse_file u) (fopen (magic_overlap_stream[0 := 0xCE]))) =
     Inr ((magic_overlap_object 0xFEEDFACE)\<lparr>commands := [\<lparr>cmd = 0x2, cmd_size = 0x18, body = Cmd_symtab
       \<lparr>symoff = 0, nsyms = 1, stroff = 0x38, strsize = 0, string_table = None,
        symbol_table = Some [\<lparr>n_strx = 0xFEEDFACE, n_type = 0x0C, n_sect = 0, n_desc = 0x100, n_value = 0x100000000\<rparr>]\<rparr>\<rparr>]\<rparr>)"
proof -
  let ?s = "\<lparr>symoff = 0, nsyms = 1, stroff = 0x38, strsize = 0, string_table = None,
        symbol_table = None\<rparr> :: symtab_command_t"
  let ?c = "\<lparr>cmd = 0x2, cmd_size = 0x18, body = Cmd_symtab ?s\<rparr>"
  let ?h = "magic_overlap_object 0xFEEDFACE"
  have h: "commands ?h = [?c]" "number_of_load_commands ?h = 1"
    by (simp_all add: size_overlap_object_def magic_overlap_object_def)
  have c: "cmd ?c = LC_SYMTAB" "body ?c = Cmd_symtab ?s"
    by (simp_all add: LC_SYMTAB_def)
  have s: "string_table ?s = None" "symbol_table ?s = None"
    "unat (nsyms ?s) = length [\<lparr>n_strx = 0xFEEDFACE, n_type = 0x0C, n_sect = 0, n_desc = 0x100, n_value = 0x100000000\<rparr>]"
    by simp_all
  have d: "drop (unat (symoff ?s)) (enc_file ?h) =
      concat (map enc_entry [\<lparr>n_strx = 0xFEEDFACE, n_type = 0x0C, n_sect = 0, n_desc = 0x100, n_value = 0x100000000\<rparr>]) @ [1, 0, 0, 0, 0x18, 0, 0, 0, 0, 0, 0, 0, 0, 0, 0, 0, 2, 0, 0, 0, 0x18, 0, 0, 0, 0, 0, 0, 0, 1, 0, 0, 0, 0x38, 0, 0, 0, 0, 0, 0, 0]"
    by (simp add: size_overlap_object_def magic_overlap_object_def enc_file_def
        enc_header_def enc_command_def enc_symtab_def enc_entry_def bytes_of_u32_def
        bytes_of_u8_def bytes_of_u16_def bytes_of_u64_def)
  show ?thesis
    unfolding magic_overlap_stream_enc'
    using decode_single_symtab[OF h c s d, of u] by simp
qed

subsection \<open>The sample stream with one byte changed\<close>

lemma sample_header:
  "fst (run_state read_header (fopen sample_stream)) = sample_object\<lparr>commands := []\<rparr>"
  "pos (snd (run_state read_header (fopen sample_stream))) = 32"
proof -
  have "drop (pos (fopen sample_stream)) (contents (fopen sample_stream)) =
      enc_header sample_object @ drop 32 sample_stream"
    by (simp add: sample_stream_def enc_file_def enc_header_def)
  with reads_header[of sample_object]
  show "fst (run_state read_header (fopen sample_stream)) = sample_object\<lparr>commands := []\<rparr>"
    and "pos (snd (run_state read_header (fopen sample_stream))) = 32"
    unfolding reads_def by (fastforce simp: enc_header_def)+
qed

lemma sample_first_pass:
  "fst (run_state (first_pass u) (fopen sample_stream)) = Inr (commands sample_object)"
proof -
  let ?rest = "[0xC0, 0x03, 0x5F, 0xD6, 0xC0, 0x03, 0x5F, 0xD6] @
     enc_entry sample_entry @ sample_strings"
  have "reads (first_pass u)
      (enc_header sample_object @ concat (map enc_command (commands sample_object)))
      (Inr (commands sample_object))"
    unfolding first_pass_def
    using reads_bind[OF reads_header[of sample_object],
        of "\<lambda>h. parse_commands u 0 (unat (number_of_load_commands h))"
        "concat (map enc_command (commands sample_object))" "Inr (commands sample_object)"]
      reads_commands[OF sample_wf, of u 0] sample_count
    by simp
  moreover have "drop (pos (fopen sample_stream)) (contents (fopen sample_stream)) =
      (enc_header sample_object @ concat (map enc_command (commands sample_object))) @ ?rest"
    by (simp add: sample_stream_def enc_file_def)
  ultimately show ?thesis unfolding reads_def by blast
qed

lemma sample_symbol_entry_bytes: "symbol_entry_bytes u sample_stream = {320..<336}"
  by (simp add: symbol_entry_bytes_def sample_first_pass symbol_range_def sample_defs
      LC_SYMTAB_def)

lemma sample_cmd_size_fields: "36 \<in> cmd_size_fields u sample_stream"
proof -
  obtain h f1 where h: "run_state read_header (fopen sample_stream) = (h, f1)"
    by (cases "run_state read_header (fopen sample_stream)")
  with sample_header have "h = sample_object\<lparr>commands := []\<rparr>" "pos f1 = 32"
    by simp_all
  then have "cmd_size_fields u sample_stream = cmd_size_offsets u 0 (Suc 3) f1"
    using h by (simp add: cmd_size_fields_def sample_object_def)
  moreover have "36 \<in> cmd_size_offsets u 0 (Suc 3) f1"
    unfolding cmd_size_offsets.simps using \<open>pos f1 = 32\<close> by simp
  ultimately show ?thesis by simp
qed

lemma length_sample_stream: "length sample_stream = 350"
  by (simp add: sample_stream_def enc_entry_def sample_strings_def)

text \<open>
  Claim C8, as the code has it. Take two streams of the same length that differ only
  in bytes the first loop reads into \<^verbatim>\<open>cmd_size\<close>, none of them among the bytes the
  resolver reads as symbol entries, and the same contents of the uninitialised
  variables. Then the decode takes the same path on both (the same failure, or success
  on both), returns objects that are equal once every stored \<^verbatim>\<open>cmd_size\<close> is blanked,
  makes the same calls on the file and leaves the cursor at the same offset. The size
  is stored and never bounds or directs a read.
\<close>

theorem cmd_size_is_only_stored:
  assumes "length bs' = length bs"
    and "\<forall>j<length bs. bs' ! j \<noteq> bs ! j \<longrightarrow>
       j \<in> cmd_size_fields u bs \<and> j \<notin> symbol_entry_bytes u bs"
  shows "map_sum id erase_cmd_sizes (fst (run_state (parse_file u) (fopen bs'))) =
         map_sum id erase_cmd_sizes (fst (run_state (parse_file u) (fopen bs))) \<and>
         pos (snd (run_state (parse_file u) (fopen bs'))) =
         pos (snd (run_state (parse_file u) (fopen bs))) \<and>
         calls (snd (run_state (parse_file u) (fopen bs'))) =
         calls (snd (run_state (parse_file u) (fopen bs)))"
  using decode_sizes[OF assms] by (simp add: same_cursor_def)

theorem cmd_size_is_only_stored_witness:
  "length (sample_stream[36 := 0x55]) = length sample_stream \<and>
   map_sum id erase_cmd_sizes
     (fst (run_state (parse_file zero_uninit) (fopen (sample_stream[36 := 0x55])))) =
   map_sum id erase_cmd_sizes
     (fst (run_state (parse_file zero_uninit) (fopen sample_stream))) \<and>
   pos (snd (run_state (parse_file zero_uninit) (fopen (sample_stream[36 := 0x55])))) =
   pos (snd (run_state (parse_file zero_uninit) (fopen sample_stream))) \<and>
   calls (snd (run_state (parse_file zero_uninit) (fopen (sample_stream[36 := 0x55])))) =
   calls (snd (run_state (parse_file zero_uninit) (fopen sample_stream)))"
proof -
  have 1: "length (sample_stream[36 := 0x55]) = length sample_stream" by simp
  have 2: "\<forall>j<length sample_stream. sample_stream[36 := 0x55] ! j \<noteq> sample_stream ! j \<longrightarrow>
       j \<in> cmd_size_fields zero_uninit sample_stream \<and>
       j \<notin> symbol_entry_bytes zero_uninit sample_stream"
    using sample_cmd_size_fields[of zero_uninit]
    by (auto simp: nth_list_update sample_symbol_entry_bytes length_sample_stream)
  show ?thesis
    using 1 cmd_size_is_only_stored[OF 1 2] by simp
qed

text \<open>
  The claim as the specification words it fails when the symbol table lies over a
  size field. The 56-byte stream \<open>size_overlap_stream\<close> is a header and one
  symbol-table command whose \<^verbatim>\<open>symoff\<close> is 32, the offset of the command itself;
  byte 36 is the first byte of its \<^verbatim>\<open>cmd_size\<close>. Changing that byte alone from
  \<open>0x18\<close> to \<open>0x09\<close> changes the \<^verbatim>\<open>n_type\<close> of the decoded symbol entry.
\<close>

theorem cmd_size_reaches_symbol_entry:
  "map_sum id (map body \<circ> commands)
     (fst (run_state (parse_file zero_uninit) (fopen size_overlap_stream))) =
   Inr [Cmd_symtab \<lparr>symoff = 0x20, nsyms = 1, stroff = 0x38, strsize = 0,
      string_table = None,
      symbol_table = Some [\<lparr>n_strx = 2, n_type = 0x18, n_sect = 0, n_desc = 0,
        n_value = 0x100000020\<rparr>]\<rparr>] \<and>
   map_sum id (map body \<circ> commands)
     (fst (run_state (parse_file zero_uninit) (fopen (size_overlap_stream[36 := 0x09])))) =
   Inr [Cmd_symtab \<lparr>symoff = 0x20, nsyms = 1, stroff = 0x38, strsize = 0,
      string_table = None,
      symbol_table = Some [\<lparr>n_strx = 2, n_type = 0x09, n_sect = 0, n_desc = 0,
        n_value = 0x100000020\<rparr>]\<rparr>] \<and>
   map_sum id erase_cmd_sizes
     (fst (run_state (parse_file zero_uninit) (fopen (size_overlap_stream[36 := 0x09])))) \<noteq>
   map_sum id erase_cmd_sizes
     (fst (run_state (parse_file zero_uninit) (fopen size_overlap_stream)))"
  by (simp add: decode_size_overlap decode_size_overlap' erase_cmd_sizes_def
      erase_cmd_size_def size_overlap_object_def)

text \<open>
  Claim C10, as the code has it. Take two streams of the same length that differ only
  in header bytes other than the four of the command count (offsets 0 to 15 and 20 to
  31), none of them among the bytes the resolver reads as symbol entries, and the same
  contents of the uninitialised variables. Then the decode takes the same path on both,
  returns objects that are equal once magic, cpu type and subtype, file type, size of
  the load commands, flags and the reserved word are blanked, makes the same calls on
  the file and leaves the cursor at the same offset. No magic is rejected and
  \<^verbatim>\<open>size_of_load_commands\<close> is compared with nothing.
\<close>

theorem header_is_only_stored:
  assumes "length bs' = length bs"
    and "\<forall>j<length bs. bs' ! j \<noteq> bs ! j \<longrightarrow>
       (j < 16 \<or> 20 \<le> j \<and> j < 32) \<and> j \<notin> symbol_entry_bytes u bs"
  shows "map_sum id erase_header_fields (fst (run_state (parse_file u) (fopen bs'))) =
         map_sum id erase_header_fields (fst (run_state (parse_file u) (fopen bs))) \<and>
         pos (snd (run_state (parse_file u) (fopen bs'))) =
         pos (snd (run_state (parse_file u) (fopen bs))) \<and>
         calls (snd (run_state (parse_file u) (fopen bs'))) =
         calls (snd (run_state (parse_file u) (fopen bs)))"
  using decode_header_fields[OF assms] by (simp add: same_cursor_def)

theorem header_is_only_stored_witness:
  "length (sample_stream[0 := 0xCE]) = length sample_stream \<and>
   map_sum id erase_header_fields
     (fst (run_state (parse_file zero_uninit) (fopen (sample_stream[0 := 0xCE])))) =
   map_sum id erase_header_fields
     (fst (run_state (parse_file zero_uninit) (fopen sample_stream))) \<and>
   pos (snd (run_state (parse_file zero_uninit) (fopen (sample_stream[0 := 0xCE])))) =
   pos (snd (run_state (parse_file zero_uninit) (fopen sample_stream))) \<and>
   calls (snd (run_state (parse_file zero_uninit) (fopen (sample_stream[0 := 0xCE])))) =
   calls (snd (run_state (parse_file zero_uninit) (fopen sample_stream)))"
proof -
  have 1: "length (sample_stream[0 := 0xCE]) = length sample_stream" by simp
  have 2: "\<forall>j<length sample_stream. sample_stream[0 := 0xCE] ! j \<noteq> sample_stream ! j \<longrightarrow>
       (j < 16 \<or> 20 \<le> j \<and> j < 32) \<and> j \<notin> symbol_entry_bytes zero_uninit sample_stream"
    by (auto simp: nth_list_update sample_symbol_entry_bytes length_sample_stream)
  show ?thesis
    using 1 header_is_only_stored[OF 1 2] by simp
qed

text \<open>
  The claim as the specification words it fails when the symbol table lies over the
  header. The 56-byte stream \<open>magic_overlap_stream\<close> is a header and one symbol-table
  command whose \<^verbatim>\<open>symoff\<close> is 0; changing byte 0, the first byte of the magic, from
  \<open>0xCF\<close> to \<open>0xCE\<close> changes the \<^verbatim>\<open>n_strx\<close> of the decoded symbol entry.
\<close>

theorem magic_reaches_symbol_entry:
  "map_sum id (map body \<circ> commands)
     (fst (run_state (parse_file zero_uninit) (fopen magic_overlap_stream))) =
   Inr [Cmd_symtab \<lparr>symoff = 0, nsyms = 1, stroff = 0x38, strsize = 0,
      string_table = None,
      symbol_table = Some [\<lparr>n_strx = 0xFEEDFACF, n_type = 0x0C, n_sect = 0, n_desc = 0x100,
        n_value = 0x100000000\<rparr>]\<rparr>] \<and>
   map_sum id (map body \<circ> commands)
     (fst (run_state (parse_file zero_uninit) (fopen (magic_overlap_stream[0 := 0xCE])))) =
   Inr [Cmd_symtab \<lparr>symoff = 0, nsyms = 1, stroff = 0x38, strsize = 0,
      string_table = None,
      symbol_table = Some [\<lparr>n_strx = 0xFEEDFACE, n_type = 0x0C, n_sect = 0, n_desc = 0x100,
        n_value = 0x100000000\<rparr>]\<rparr>] \<and>
   map_sum id erase_header_fields
     (fst (run_state (parse_file zero_uninit) (fopen (magic_overlap_stream[0 := 0xCE])))) \<noteq>
   map_sum id erase_header_fields
     (fst (run_state (parse_file zero_uninit) (fopen magic_overlap_stream)))"
  by (simp add: decode_magic_overlap decode_magic_overlap' erase_header_fields_def
      magic_overlap_object_def)

section \<open>The report\<close>

subsection \<open>Hexadecimal digits\<close>

lemma length_hex [simp]: "length (hex n w) = n"
  by (simp add: hex_def)

lemma hexdigit_inj: "i < 16 \<Longrightarrow> j < 16 \<Longrightarrow> hexdigit i = hexdigit j \<longleftrightarrow> i = j"
  unfolding hexdigit_def by (rule nth_eq_iff_index_eq) simp_all

lemma nibble_take_bit: "w AND (0xF :: 'a::len word) = take_bit 4 w"
proof -
  have e: "(0xF :: 'a word) = mask 4" by (simp add: mask_eq_exp_minus_1)
  show ?thesis by (subst e) (simp only: take_bit_eq_mask)
qed

lemma nibble_less: "unat (w AND (0xF :: 'a::len word)) < 16"
proof -
  have "unat (take_bit 4 w) = take_bit 4 (unat w)" by (rule unsigned_take_bit_eq)
  also have "\<dots> < 2 ^ 4" by (rule take_bit_nat_less_exp)
  finally show ?thesis by (simp add: nibble_take_bit)
qed

lemma bit_nibble:
  "bit (drop_bit (4 * i) w AND (0xF :: 'a::len word)) j \<longleftrightarrow> j < 4 \<and> bit w (4 * i + j)"
  unfolding nibble_take_bit by (auto simp: bit_simps)

lemma hex_eq_iff:
  "hex n a = hex n b \<longleftrightarrow>
     (\<forall>i<n. drop_bit (4 * i) a AND 0xF = drop_bit (4 * i) b AND 0xF)"
  by (auto simp: hex_def hexdigit_inj nibble_less word_unat_eq_iff)

lemma hex_inj:
  fixes a b :: "'a::len word"
  assumes "LENGTH('a) \<le> 4 * n"
  shows "hex n a = hex n b \<longleftrightarrow> a = b"
proof
  assume h: "hex n a = hex n b"
  show "a = b"
  proof (rule bit_word_eqI)
    fix k assume k: "k < LENGTH('a)"
    then have "k div 4 < n" using assms by simp
    then have "drop_bit (4 * (k div 4)) a AND 0xF = drop_bit (4 * (k div 4)) b AND 0xF"
      using h by (simp add: hex_eq_iff)
    then have "bit (drop_bit (4 * (k div 4)) a AND 0xF) (k mod 4) =
        bit (drop_bit (4 * (k div 4)) b AND 0xF) (k mod 4)"
      by simp
    then show "bit a k = bit b k"
      by (simp add: bit_nibble)
  qed
qed simp

lemma hex_u32_inj [simp]: "hex 8 (a :: u32) = hex 8 b \<longleftrightarrow> a = b"
  by (rule hex_inj) simp

lemma hex_u64_inj [simp]: "hex 16 (a :: u64) = hex 16 b \<longleftrightarrow> a = b"
  by (rule hex_inj) simp

lemma hex_append_eq [simp]: "hex n a @ x = hex n b @ y \<longleftrightarrow> hex n a = hex n b \<and> x = y"
  by simp


subsection \<open>What the decode guarantees about a segment name\<close>

lemma length_fread_name: "length (fst (run_state (fread_name old) f)) \<le> 16"
proof -
  have "length (take 16 xs) \<le> 16" for xs :: "u8 list" by simp
  then show ?thesis
    by (simp add: fread_name_def fread_def Let_def del: length_take take_append)
qed

lemma read_segment_name:
  "length (segname (fst (run_state (read_segment u i) f))) \<le> 16"
  by (simp add: read_segment_def split_def length_fread_name)

lemma parse_command_name:
  "fst (run_state (parse_command u i) f) = Inr c \<Longrightarrow> name_fits c"
  unfolding parse_command_def
  by (auto simp: split_def name_fits_def read_segment_name split: if_splits)

lemma parse_commands_name:
  "fst (run_state (parse_commands u i n) f) = Inr cs \<Longrightarrow> list_all name_fits cs"
proof (induction n arbitrary: i f cs)
  case 0
  then show ?case by simp
next
  case (Suc n)
  obtain r f1 where r: "run_state (parse_command u i) f = (r, f1)"
    by (cases "run_state (parse_command u i) f")
  show ?case
  proof (cases r)
    case (Inl e)
    with Suc.prems r show ?thesis by simp
  next
    case (Inr c)
    obtain rs f2 where rs: "run_state (parse_commands u (Suc i) n) f1 = (rs, f2)"
      by (cases "run_state (parse_commands u (Suc i) n) f1")
    with Suc.prems r Inr obtain rest where rest: "rs = Inr rest" "cs = c # rest"
      by (cases rs) auto
    have "name_fits c"
      using parse_command_name[of u i f c] r Inr by simp
    moreover have "list_all name_fits rest"
      using Suc.IH[of "Suc i" f1 rest] rs rest by simp
    ultimately show ?thesis using rest by simp
  qed
qed

lemma name_fits_unresolved [simp]: "name_fits (unresolved c) = name_fits c"
  by (cases "body c") (simp_all add: name_fits_def unresolved_def)

lemma name_fits_resolve_commands:
  assumes "list_all name_fits cs"
  shows "list_all name_fits (fst (run_state (resolve_commands u cs) f))"
proof -
  have "list_all name_fits (map unresolved (fst (run_state (resolve_commands u cs) f)))"
    using assms unfolding unresolved_resolve_commands by (simp add: list_all_iff)
  then show ?thesis by (simp add: list_all_iff)
qed

lemma parse_file_name:
  assumes "fst (run_state (parse_file u) f) = Inr obj"
  shows "list_all name_fits (commands obj)"
proof -
  obtain h f1 where h: "run_state read_header f = (h, f1)"
    by (cases "run_state read_header f")
  obtain r f2 where r: "run_state (parse_commands u 0 (unat (number_of_load_commands h))) f1 = (r, f2)"
    by (cases "run_state (parse_commands u 0 (unat (number_of_load_commands h))) f1")
  show ?thesis
  proof (cases r)
    case (Inl e)
    with assms h r show ?thesis by (simp add: parse_file_def)
  next
    case (Inr cs)
    then have obj: "obj = h\<lparr>commands := fst (run_state (resolve_commands u cs) f2)\<rparr>"
      using assms h r by (simp add: parse_file_def split_def)
    have "list_all name_fits cs"
      using parse_commands_name[of u 0 "unat (number_of_load_commands h)" f1 cs] r Inr
      by simp
    then show ?thesis
      using name_fits_resolve_commands[of cs u f2] by (simp add: obj)
  qed
qed

subsection \<open>The blocks of the report\<close>

lemma length_print_header [simp]: "length (print_header obj) = 368"
  by (simp add: print_header_def)

lemma print_header_inj:
  "print_header a = print_header b \<longleftrightarrow>
     magic a = magic b \<and> cpu_type a = cpu_type b \<and> cpu_subtype a = cpu_subtype b \<and>
     file_type a = file_type b \<and> number_of_load_commands a = number_of_load_commands b \<and>
     size_of_load_commands a = size_of_load_commands b \<and> flags a = flags b \<and>
     reserved a = reserved b"
  by (simp add: print_header_def)

lemma print_build_version_split:
  "print_build_version c x @ r = print_build_version c' x' @ r' \<longleftrightarrow>
     cmd c = cmd c' \<and> x = x' \<and> r = r'"
  by (cases x; cases x') (simp add: print_build_version_def)

lemma print_symtab_split:
  "print_symtab c s @ r = print_symtab c' s' @ r' \<longleftrightarrow>
     cmd c = cmd c' \<and> symoff s = symoff s' \<and> nsyms s = nsyms s' \<and> stroff s = stroff s' \<and>
     strsize s = strsize s' \<and> r = r'"
  by (simp add: print_symtab_def)

lemma print_dysymtab_split:
  "print_dysymtab c d @ r = print_dysymtab c' d' @ r' \<longleftrightarrow>
     cmd c = cmd c' \<and> d = d' \<and> r = r'"
  by (cases d; cases d') (simp add: print_dysymtab_def)


lemma no_quote_inside:
  "list_all (\<lambda>k. (dquote # newline # tab # ''vmaddr        : 0x'' @ y) ! k \<noteq> dquote) [1..<16]"
  by (simp add: upt_rec dquote_def newline_def tab_def)

lemma name_end_unique:
  assumes eq: "us @ dquote # newline # tab # ''vmaddr        : 0x'' @ x =
      dquote # newline # tab # ''vmaddr        : 0x'' @ y"
    and len: "length us \<le> 15"
  shows "us = []"
proof (rule ccontr)
  assume "us \<noteq> []"
  then have k: "length us \<in> set [1..<16]" using len by (cases us) simp_all
  have "(dquote # newline # tab # ''vmaddr        : 0x'' @ y) ! length us = dquote"
    using arg_cong[OF eq, of "\<lambda>zs. zs ! length us"] by simp
  moreover have "(dquote # newline # tab # ''vmaddr        : 0x'' @ y) ! length us \<noteq> dquote"
    using no_quote_inside[of y] k unfolding list_all_iff by blast
  ultimately show False by blast
qed

lemma name_split:
  assumes eq: "n1 @ dquote # newline # tab # ''vmaddr        : 0x'' @ x =
      n2 @ dquote # newline # tab # ''vmaddr        : 0x'' @ y"
    and len: "length n1 \<le> 15" "length n2 \<le> 15"
  shows "n1 = n2 \<and> x = y"
proof -
  from eq obtain us where
    "n1 = n2 @ us \<and> us @ dquote # newline # tab # ''vmaddr        : 0x'' @ x =
        dquote # newline # tab # ''vmaddr        : 0x'' @ y \<or>
     n1 @ us = n2 \<and> dquote # newline # tab # ''vmaddr        : 0x'' @ x =
        us @ dquote # newline # tab # ''vmaddr        : 0x'' @ y"
    unfolding append_eq_append_conv2 by blast
  then show ?thesis
  proof
    assume a: "n1 = n2 @ us \<and> us @ dquote # newline # tab # ''vmaddr        : 0x'' @ x =
        dquote # newline # tab # ''vmaddr        : 0x'' @ y"
    then have "us = []" using name_end_unique[of us x y] len by simp
    with a show ?thesis by simp
  next
    assume a: "n1 @ us = n2 \<and> dquote # newline # tab # ''vmaddr        : 0x'' @ x =
        us @ dquote # newline # tab # ''vmaddr        : 0x'' @ y"
    then have "us = []" using name_end_unique[of us y x] len by auto
    with a show ?thesis by simp
  qed
qed

lemmas name_split' = name_split[simplified]

lemma print_segment_split:
  assumes "print_segment c g n1 @ r = print_segment c' g' n2 @ r'"
    and "length n1 \<le> 15" "length n2 \<le> 15"
  shows "cmd c = cmd c' \<and> n1 = n2 \<and> vmaddr g = vmaddr g' \<and> fileoff g = fileoff g' \<and>
     filesize g = filesize g' \<and> maxprot g = maxprot g' \<and> initprot g = initprot g' \<and>
     nsects g = nsects g' \<and> seg_flags g = seg_flags g' \<and> r = r'"
  using assms by (auto simp: print_segment_def dest!: name_split')

end
